theory Spec2Isabelle
  imports Main "HOL-Library.Word" "HOL-Library.Signed_Division"
begin

unbundle bit_operations_syntax

chapter \<open>The program\<close>

section \<open>Bytes, errors and readers\<close>

type_synonym byte = "8 word"

text \<open>
  Run-time panics of the Go program are values of the model, next to the errors the
  program builds with \<open>fmt.Errorf\<close> and the errors of package \<open>io\<close>.
\<close>

datatype panic =
    SliceBoundsOutOfRange
  | IndexOutOfRange
  | MakeLenOutOfRange
  | TypeAssertionFailed
  | NilDereference

datatype error =
    EOF
  | ErrUnexpectedEOF
  | ImageTypeError "16 word"
  | CountError "16 word"
  | SignatureError "byte list"
  | WidthError "32 word"
  | HeightError "32 word"
  | DIBSizeError "32 word"
  | CompressionError "32 word"
  | BppError "16 word"
  | NotImplementedError int
  | PNGError string
  | Panic panic

text \<open>
  An \<open>io.Reader\<close> over a fully buffered input is the list of bytes not yet read.
  \<open>io.ReadFull\<close> of \<open>n\<close> bytes: \<open>io.EOF\<close> when nothing is left, \<open>io.ErrUnexpectedEOF\<close>
  when fewer than \<open>n\<close> bytes are left; reading zero bytes always succeeds. A failed
  read has consumed what was left (\<open>after_read\<close>).
\<close>

definition ReadFull :: "byte list \<Rightarrow> nat \<Rightarrow> error + (byte list \<times> byte list)" where
  "ReadFull r n =
     (if n \<le> length r then Inr (take n r, drop n r)
      else if r = [] then Inl EOF
      else Inl ErrUnexpectedEOF)"

definition after_read :: "byte list \<Rightarrow> nat \<Rightarrow> byte list" where
  "after_read r n = drop n r"

text \<open>\<open>binary.LittleEndian.Uint16\<close> and \<open>Uint32\<close> at an offset of a byte slice.\<close>

definition u16_at :: "byte list \<Rightarrow> nat \<Rightarrow> 16 word" where
  "u16_at b k = ucast (b ! k) OR push_bit 8 (ucast (b ! (k + 1)))"

definition u32_at :: "byte list \<Rightarrow> nat \<Rightarrow> 32 word" where
  "u32_at b k =
     ucast (b ! k) OR push_bit 8 (ucast (b ! (k + 1)))
       OR push_bit 16 (ucast (b ! (k + 2))) OR push_bit 24 (ucast (b ! (k + 3)))"

text \<open>\<open>binary.Write\<close> of a 16-bit and of a 32-bit value, little endian.\<close>

definition put16 :: "16 word \<Rightarrow> byte list" where
  "put16 v = [ucast v, ucast (drop_bit 8 v)]"

definition put32 :: "32 word \<Rightarrow> byte list" where
  "put32 v = [ucast v, ucast (drop_bit 8 v), ucast (drop_bit 16 v), ucast (drop_bit 24 v)]"

section \<open>The container header and the directory (ico.go)\<close>

record header =
  hdr_Reserved :: "16 word"
  hdr_ImageType :: "16 word"
  hdr_Count :: "16 word"

text \<open>
  \<open>binary.Read(r, binary.LittleEndian, &h)\<close> in \<open>readHeader\<close>: the six bytes are
  decoded when they are there; otherwise the read fails, its error is dropped and
  \<open>h\<close> keeps its zero value.
\<close>

definition header_read :: "byte list \<Rightarrow> header" where
  "header_read r =
     (case ReadFull r 6 of
        Inr (b, _) \<Rightarrow>
          \<lparr>hdr_Reserved = u16_at b 0, hdr_ImageType = u16_at b 2, hdr_Count = u16_at b 4\<rparr>
      | Inl _ \<Rightarrow> \<lparr>hdr_Reserved = 0, hdr_ImageType = 0, hdr_Count = 0\<rparr>)"

definition readHeader :: "byte list \<Rightarrow> error + (header \<times> byte list)" where
  "readHeader r =
     (let h = header_read r; r' = after_read r 6 in
      if hdr_ImageType h \<noteq> 1 then Inl (ImageTypeError (hdr_ImageType h))
      else if sint (hdr_Count h) \<le> 0 then Inl (CountError (hdr_Count h))
      else Inr (h, r'))"

text \<open>The two errors of \<open>readHeader\<close> are the spec's \<open>InvalidContainerHeader\<close>.\<close>

fun InvalidContainerHeader :: "error \<Rightarrow> bool" where
  "InvalidContainerHeader (ImageTypeError _) = True"
| "InvalidContainerHeader (CountError _) = True"
| "InvalidContainerHeader _ = False"

record directory =
  dir_Width :: byte
  dir_Height :: byte
  dir_ColorCount :: byte
  dir_Reserved :: byte
  dir_Planes :: "16 word"
  dir_BitCount :: "16 word"
  dir_BytesInRes :: "32 word"
  dir_ImageOffset :: "32 word"

definition zero_directory :: directory where
  "zero_directory =
     \<lparr>dir_Width = 0, dir_Height = 0, dir_ColorCount = 0, dir_Reserved = 0,
      dir_Planes = 0, dir_BitCount = 0, dir_BytesInRes = 0, dir_ImageOffset = 0\<rparr>"

definition directory_at :: "byte list \<Rightarrow> nat \<Rightarrow> directory" where
  "directory_at b k =
     \<lparr>dir_Width = b ! k, dir_Height = b ! (k + 1), dir_ColorCount = b ! (k + 2),
      dir_Reserved = b ! (k + 3), dir_Planes = u16_at b (k + 4),
      dir_BitCount = u16_at b (k + 6), dir_BytesInRes = u32_at b (k + 8),
      dir_ImageOffset = u32_at b (k + 12)\<rparr>"

text \<open>
  \<open>readDirectoris\<close>: \<open>make([]directory, size)\<close> panics on a negative size;
  \<open>binary.Read\<close> fills the whole slice from \<open>16 * size\<close> bytes or, when they are not
  all there, fails before it decodes anything. The error of \<open>binary.Read\<close> is dropped.
\<close>

definition readDirectoris :: "byte list \<Rightarrow> int \<Rightarrow> error + (directory list \<times> byte list)" where
  "readDirectoris r sz =
     (if sz < 0 then Inl (Panic MakeLenOutOfRange)
      else
        let n = nat sz;
            ds = (case ReadFull r (16 * n) of
                    Inr (b, _) \<Rightarrow> map (\<lambda>i. directory_at b (16 * i)) [0..<n]
                  | Inl _ \<Rightarrow> replicate n zero_directory)
        in Inr (ds, after_read r (16 * n)))"

section \<open>The info header (internal/bmp/decode.go)\<close>

record InfoHeader =
  ih_Size :: "32 word"
  ih_Width :: "32 word"
  ih_Height :: "32 word"
  ih_Planes :: "16 word"
  ih_BitCount :: "16 word"
  ih_Compression :: "32 word"
  ih_SizeImage :: "32 word"
  ih_XPelsPerMeter :: "32 word"
  ih_YPelsPerMeter :: "32 word"
  ih_ColorUsed :: "32 word"
  ih_ColorImportant :: "32 word"

text \<open>
  \<open>ReadInfoHeader\<close>: the size field (4 bytes), then the other ten fields (36 bytes);
  \<open>Width\<close> and \<open>Height\<close> are \<open>int32\<close>, read here through \<open>sint\<close>.
\<close>

definition ReadInfoHeader :: "byte list \<Rightarrow> error + (InfoHeader \<times> byte list)" where
  "ReadInfoHeader r =
     (case ReadFull r 4 of
        Inl e \<Rightarrow> Inl e
      | Inr (sb, r1) \<Rightarrow>
          (case ReadFull r1 36 of
             Inl e \<Rightarrow> Inl e
           | Inr (b, r2) \<Rightarrow>
               let h = \<lparr>ih_Size = u32_at sb 0, ih_Width = u32_at b 0, ih_Height = u32_at b 4,
                        ih_Planes = u16_at b 8, ih_BitCount = u16_at b 10,
                        ih_Compression = u32_at b 12, ih_SizeImage = u32_at b 16,
                        ih_XPelsPerMeter = u32_at b 20, ih_YPelsPerMeter = u32_at b 24,
                        ih_ColorUsed = u32_at b 28, ih_ColorImportant = u32_at b 32\<rparr>
               in if sint (ih_Width h) \<le> 0 then Inl (WidthError (ih_Width h))
                  else if ih_Height h = 0 then Inl (HeightError (ih_Height h))
                  else Inr (h, r2)))"

section \<open>The two synthesized bitmap streams (ico.go, newBMPReader)\<close>

text \<open>
  The local variables of \<open>newBMPReader\<close> of type \<open>uint\<close> are 64-bit words.
  \<open>psize\<close> is lines 85 to 88, \<open>rowBytes\<close> the variable \<open>w\<close> after line 96,
  \<open>rowCount\<close> the variable \<open>h\<close> after line 102 and \<open>xorSize\<close> line 104.
\<close>

definition psize :: "InfoHeader \<Rightarrow> 64 word" where
  "psize ih =
     (let p = ucast (ih_ColorUsed ih) * 4 in
      if p = 0 \<and> ih_BitCount ih < 16 then push_bit (unat (ih_BitCount ih)) 1 * 4 else p)"

definition rowBytes :: "directory \<Rightarrow> InfoHeader \<Rightarrow> 64 word" where
  "rowBytes dir ih =
     (let w = ucast (dir_Width dir); w = (if w = 0 then 256 else w) in
      (w * ucast (ih_BitCount ih) + 31) div 32 * 4)"

definition rowCount :: "directory \<Rightarrow> 64 word" where
  "rowCount dir = (let h = ucast (dir_Height dir) in if h = 0 then 256 else h)"

definition xorSize :: "directory \<Rightarrow> InfoHeader \<Rightarrow> 64 word" where
  "xorSize dir ih = psize ih + rowBytes dir ih * rowCount dir"

text \<open>\<open>int32(ih.Height/2)\<close>: Go's division truncates towards zero.\<close>

definition halfHeight :: "InfoHeader \<Rightarrow> 32 word" where
  "halfHeight ih = word_of_int (sint (ih_Height ih) sdiv 2)"

definition bmpHeaderSize :: "32 word" where
  "bmpHeaderSize = 14"

definition bmpInfoHeaderSize :: "32 word" where
  "bmpInfoHeaderSize = 40"

text \<open>The bytes of the string \<open>"BM"\<close>.\<close>

definition BM :: "byte list" where
  "BM = [0x42, 0x4D]"

definition xorStream :: "directory \<Rightarrow> InfoHeader \<Rightarrow> byte list \<Rightarrow> byte list" where
  "xorStream dir ih d =
     BM @ put32 (bmpHeaderSize + ih_Size ih + ucast (xorSize dir ih))
        @ put16 0 @ put16 0
        @ put32 (bmpHeaderSize + ih_Size ih + ucast (psize ih))
        @ put32 (ih_Size ih) @ put32 (ih_Width ih) @ put32 (halfHeight ih)
        @ put16 (ih_Planes ih) @ put16 (ih_BitCount ih)
        @ put32 (ih_Compression ih) @ put32 (ih_SizeImage ih)
        @ put32 (ih_XPelsPerMeter ih) @ put32 (ih_YPelsPerMeter ih)
        @ put32 (ih_ColorUsed ih) @ put32 (ih_ColorImportant ih)
        @ take (unat (xorSize dir ih)) d"

definition andStream :: "directory \<Rightarrow> InfoHeader \<Rightarrow> byte list \<Rightarrow> byte list" where
  "andStream dir ih d =
     (let psize = (2 * 4 :: 64 word);
          andSize = psize + word_of_nat (length d) - xorSize dir ih
      in BM @ put32 (bmpHeaderSize + bmpInfoHeaderSize + ucast andSize)
            @ put16 0 @ put16 0
            @ put32 (bmpHeaderSize + bmpInfoHeaderSize + ucast psize)
            @ put32 bmpInfoHeaderSize @ put32 (ih_Width ih) @ put32 (halfHeight ih)
            @ put16 0 @ put16 1
            @ put32 0 @ put32 0 @ put32 0 @ put32 0 @ put32 0 @ put32 0
            @ [0x00, 0x00, 0x00, 0xff] @ [0xff, 0xff, 0xff, 0xff]
            @ drop (unat (xorSize dir ih)) d)"

text \<open>
  \<open>newBMPReader\<close> returns the byte slices of the two readers (their positions are 0).
  \<open>d\<close> is what \<open>ioutil.ReadAll\<close> finds after the info header. When \<open>xorSize\<close> is
  greater than \<open>len(d)\<close> the function panics: at \<open>d[:xorSize]\<close> (line 129) when
  \<open>xorSize\<close> is beyond the capacity of \<open>d\<close>, and otherwise at \<open>d[xorSize:]\<close>
  (line 165).
\<close>

definition newBMPReader :: "directory \<Rightarrow> byte list \<Rightarrow> error + (byte list \<times> byte list)" where
  "newBMPReader dir data =
     (case ReadInfoHeader data of
        Inl e \<Rightarrow> Inl e
      | Inr (ih, d) \<Rightarrow>
          if length d < unat (xorSize dir ih) then Inl (Panic SliceBoundsOutOfRange)
          else Inr (xorStream dir ih d, andStream dir ih d))"

section \<open>Example inputs\<close>

text \<open>
  A directory entry and its payload for one 32-bit pixel: a 40-byte info header
  (width 1, height 2, 32 bits per pixel), the pixel (blue 10, green 20, red 30,
  alpha 128) and one 4-byte row of the AND mask.
\<close>

definition ex_dir :: directory where
  "ex_dir = \<lparr>dir_Width = 1, dir_Height = 1, dir_ColorCount = 0, dir_Reserved = 0,
      dir_Planes = 1, dir_BitCount = 32, dir_BytesInRes = 48, dir_ImageOffset = 22\<rparr>"

definition ex_payload :: "byte list" where
  "ex_payload =
     [40, 0, 0, 0,  1, 0, 0, 0,  2, 0, 0, 0,  1, 0,  32, 0,  0, 0, 0, 0,  0, 0, 0, 0,
      0, 0, 0, 0,  0, 0, 0, 0,  0, 0, 0, 0,  0, 0, 0, 0,
      10, 20, 30, 128,
      0, 0, 0, 0]"

section \<open>Images and colours (Go's packages image and image/color)\<close>

text \<open>
  Go's \<open>int\<close> is modelled by \<open>int\<close>: no value of that type computed by this program
  leaves the 64-bit range. Go's integer division truncates towards zero (\<open>sdiv\<close>).
  Memory is not bounded: \<open>make\<close> and the image constructors always succeed.
\<close>

datatype rgba = RGBA (cR: byte) (cG: byte) (cB: byte) (cA: byte)

record rectangle =
  MinX :: int
  MinY :: int
  MaxX :: int
  MaxY :: int

text \<open>\<open>image.Rect\<close> swaps the coordinates so that the minimum is not above the maximum.\<close>

definition Rect :: "int \<Rightarrow> int \<Rightarrow> int \<Rightarrow> int \<Rightarrow> rectangle" where
  "Rect x0 y0 x1 y1 =
     \<lparr>MinX = min x0 x1, MinY = min y0 y1, MaxX = max x0 x1, MaxY = max y0 y1\<rparr>"

definition Dx :: "rectangle \<Rightarrow> int" where
  "Dx r = MaxX r - MinX r"

definition Dy :: "rectangle \<Rightarrow> int" where
  "Dy r = MaxY r - MinY r"

definition inRect :: "int \<Rightarrow> int \<Rightarrow> rectangle \<Rightarrow> bool" where
  "inRect x y r = (MinX r \<le> x \<and> x < MaxX r \<and> MinY r \<le> y \<and> y < MaxY r)"

record pixbuf =
  Pix :: "byte list"
  Stride :: int
  Bounds :: rectangle

text \<open>\<open>*image.Paletted\<close> (with its palette), \<open>*image.RGBA\<close> and \<open>*image.NRGBA\<close>.\<close>

datatype image =
    Paletted pixbuf "rgba list"
  | ImageRGBA pixbuf
  | ImageNRGBA pixbuf

fun buf :: "image \<Rightarrow> pixbuf" where
  "buf (Paletted b _) = b"
| "buf (ImageRGBA b) = b"
| "buf (ImageNRGBA b) = b"

fun withPix :: "image \<Rightarrow> byte list \<Rightarrow> image" where
  "withPix (Paletted b p) px = Paletted (b\<lparr>Pix := px\<rparr>) p"
| "withPix (ImageRGBA b) px = ImageRGBA (b\<lparr>Pix := px\<rparr>)"
| "withPix (ImageNRGBA b) px = ImageNRGBA (b\<lparr>Pix := px\<rparr>)"

definition newBuf :: "int \<Rightarrow> rectangle \<Rightarrow> pixbuf" where
  "newBuf bytesPerPixel r =
     \<lparr>Pix = replicate (nat (bytesPerPixel * Dx r * Dy r)) 0,
      Stride = bytesPerPixel * Dx r, Bounds = r\<rparr>"

definition NewPaletted :: "rectangle \<Rightarrow> rgba list \<Rightarrow> image" where
  "NewPaletted r p = Paletted (newBuf 1 r) p"

definition NewRGBA :: "rectangle \<Rightarrow> image" where
  "NewRGBA r = ImageRGBA (newBuf 4 r)"

definition NewNRGBA :: "rectangle \<Rightarrow> image" where
  "NewNRGBA r = ImageNRGBA (newBuf 4 r)"

section \<open>Checked slice operations\<close>

definition bindE :: "error + 'a \<Rightarrow> ('a \<Rightarrow> error + 'b) \<Rightarrow> error + 'b" where
  "bindE m f = (case m of Inl e \<Rightarrow> Inl e | Inr x \<Rightarrow> f x)"

fun foldE :: "('a \<Rightarrow> 's \<Rightarrow> error + 's) \<Rightarrow> 'a list \<Rightarrow> 's \<Rightarrow> error + 's" where
  "foldE f [] s = Inr s"
| "foldE f (x # xs) s = bindE (f x s) (foldE f xs)"

text \<open>\<open>xs[i]\<close> read and written; Go panics when the index is out of range.\<close>

definition getE :: "'a list \<Rightarrow> nat \<Rightarrow> error + 'a" where
  "getE xs i = (if i < length xs then Inr (xs ! i) else Inl (Panic IndexOutOfRange))"

definition setE :: "'a list \<Rightarrow> nat \<Rightarrow> 'a \<Rightarrow> error + 'a list" where
  "setE xs i v = (if i < length xs then Inr (xs[i := v]) else Inl (Panic IndexOutOfRange))"

text \<open>A sequence of assignments \<open>p[i] = v\<close>, in order.\<close>

definition putsE :: "'a list \<Rightarrow> (nat \<times> 'a) list \<Rightarrow> error + 'a list" where
  "putsE p ws = foldE (\<lambda>(i, v) q. setE q i v) ws p"

text \<open>The builtin \<open>copy(dst, src)\<close>.\<close>

definition copy :: "'a list \<Rightarrow> 'a list \<Rightarrow> 'a list" where
  "copy dst src = take (length dst) src @ drop (length src) dst"

text \<open>
  A row slice \<open>p := Pix[base : base+n]\<close> shares its memory with \<open>Pix\<close>: \<open>rowAt\<close>
  reads it, \<open>store\<close> writes the row back after the loop body has changed \<open>p\<close>.
\<close>

definition rowAt :: "'a list \<Rightarrow> nat \<Rightarrow> nat \<Rightarrow> 'a list" where
  "rowAt pix base n = take n (drop base pix)"

definition store :: "'a list \<Rightarrow> nat \<Rightarrow> 'a list \<Rightarrow> 'a list" where
  "store pix base p = take base pix @ take (length pix - base) p @ drop (base + length p) pix"

section \<open>The bitmap decoder (internal/bmp/decode.go)\<close>

record fileHeader =
  fh_Signature :: "16 word"
  fh_FileSize :: "32 word"
  fh_Reserved1 :: "16 word"
  fh_Reserved2 :: "16 word"
  fh_OffsetBits :: "32 word"

definition readFileHeader :: "byte list \<Rightarrow> error + (fileHeader \<times> byte list)" where
  "readFileHeader r =
     (case ReadFull r 14 of
        Inl e \<Rightarrow> Inl e
      | Inr (b, r') \<Rightarrow>
          let h = \<lparr>fh_Signature = u16_at b 0, fh_FileSize = u32_at b 2,
                   fh_Reserved1 = u16_at b 6, fh_Reserved2 = u16_at b 8,
                   fh_OffsetBits = u32_at b 10\<rparr>;
              sig = put16 (fh_Signature h)
          in if sig \<noteq> BM then Inl (SignatureError sig) else Inr (h, r'))"

text \<open>\<open>colorBGR.RGBA\<close>: a palette entry is blue, green, red, reserved.\<close>

definition colorBGR_RGBA :: "byte list \<Rightarrow> nat \<Rightarrow> rgba" where
  "colorBGR_RGBA b k = RGBA (b ! (k + 2)) (b ! (k + 1)) (b ! k) 0xff"

datatype color_model = Palette "rgba list" | RGBAModel

record config =
  cfg_ColorModel :: color_model
  cfg_Width :: int
  cfg_Height :: int

record decoder =
  bpp :: int
  isOpposite :: bool
  config :: config

text \<open>
  \<open>newDecoder\<close>. The cases of its two \<open>switch\<close> statements are \<open>supportedSize\<close>
  (line 115), \<open>indexedDepth\<close> (line 137) and \<open>directDepth\<close> (line 147).
  \<open>ih.Height *= -1\<close> is \<open>int32\<close> arithmetic and wraps at \<open>-2^31\<close>;
  \<open>1 << ih.BitCount\<close> is a \<open>uint32\<close> shift.
\<close>

definition supportedSize :: "32 word \<Rightarrow> bool" where
  "supportedSize s = (s = 40 \<or> s = 108 \<or> s = 124)"

definition indexedDepth :: "16 word \<Rightarrow> bool" where
  "indexedDepth b = (b = 1 \<or> b = 4 \<or> b = 8)"

definition directDepth :: "16 word \<Rightarrow> bool" where
  "directDepth b = (b = 16 \<or> b = 24 \<or> b = 32)"

definition newDecoder :: "byte list \<Rightarrow> error + (decoder \<times> byte list)" where
  "newDecoder r =
     bindE (readFileHeader r) (\<lambda>(_, r1).
     bindE (ReadInfoHeader r1) (\<lambda>(ih, r2).
       if \<not> supportedSize (ih_Size ih) then Inl (DIBSizeError (ih_Size ih))
       else
         let (height, opp) =
               (if sint (ih_Height ih) < 0 then (ih_Height ih * (- 1), True)
                else (ih_Height ih, False))
         in if ih_Compression ih \<noteq> 0 then Inl (CompressionError (ih_Compression ih))
            else
              let colorUsed =
                    (if ih_ColorUsed ih = 0 then push_bit (unat (ih_BitCount ih)) 1
                     else ih_ColorUsed ih);
                  mk = (\<lambda>model r3.
                     Inr (\<lparr>bpp = uint (ih_BitCount ih), isOpposite = opp,
                           config = \<lparr>cfg_ColorModel = model, cfg_Width = sint (ih_Width ih),
                                     cfg_Height = sint height\<rparr>\<rparr>, r3))
              in if indexedDepth (ih_BitCount ih)
                 then bindE (ReadFull r2 (unat colorUsed * 4)) (\<lambda>(clrs, r3).
                        mk (Palette (map (\<lambda>i. colorBGR_RGBA clrs (4 * i)) [0..<unat colorUsed]))
                           r3)
                 else if directDepth (ih_BitCount ih)
                 then mk RGBAModel r2
                 else Inl (BppError (ih_BitCount ih))))"

text \<open>
  The row loop \<open>for y := y0; y != y1; y += dy\<close> that the five decode functions
  share, with \<open>dy\<close> either 1 (\<open>up\<close>) or -1. Each pass reads \<open>rowLen\<close> bytes
  (\<open>io.EOF\<close> becomes \<open>io.ErrUnexpectedEOF\<close>), takes the slice
  \<open>p := Pix[y*Stride : (y+1)*Stride]\<close>, which panics out of range, and runs the
  function's inner loop \<open>unpack\<close> on the row read and on \<open>p\<close>. \<open>decode32\<close> takes the
  slice before it reads (\<open>sliceFirst\<close>). \<open>Stride\<close> is the image width times the
  bytes per pixel, and \<open>newDecoder\<close> only builds decoders of positive width; the
  conjunct \<open>0 < stride\<close> makes the recursion well-founded without that knowledge.
\<close>

definition sliceOK :: "int \<Rightarrow> int \<Rightarrow> 'a list \<Rightarrow> bool" where
  "sliceOK stride y pix =
     (0 < stride \<and> 0 \<le> y * stride \<and> (y + 1) * stride \<le> int (length pix))"

function decodeRows ::
  "bool \<Rightarrow> (byte list \<Rightarrow> byte list \<Rightarrow> error + byte list) \<Rightarrow> nat \<Rightarrow> int \<Rightarrow> bool
     \<Rightarrow> int \<Rightarrow> int \<Rightarrow> byte list \<Rightarrow> byte list \<Rightarrow> error + byte list" where
  "decodeRows sliceFirst unpack rowLen stride up y y1 r pix =
     (if y = y1 then Inr pix
      else if sliceFirst \<and> \<not> sliceOK stride y pix then Inl (Panic SliceBoundsOutOfRange)
      else
        case ReadFull r rowLen of
          Inl e \<Rightarrow> Inl (if e = EOF then ErrUnexpectedEOF else e)
        | Inr (row, r') \<Rightarrow>
            if \<not> sliceOK stride y pix then Inl (Panic SliceBoundsOutOfRange)
            else
              case unpack row (rowAt pix (nat (y * stride)) (nat stride)) of
                Inl e \<Rightarrow> Inl e
              | Inr p \<Rightarrow>
                  decodeRows sliceFirst unpack rowLen stride up
                    (y + (if up then 1 else - 1)) y1 r' (store pix (nat (y * stride)) p))"
  by pat_completeness auto
termination
proof (relation "measure (\<lambda>(sliceFirst, unpack, rowLen, stride, up, y, y1, r, pix).
          if up then nat (int (length pix) - y) else nat (y + 1))", goal_cases)
  case 1
  show ?case by simp
next
  case (2 sliceFirst unpack rowLen stride up y y1 r pix x2 row r' p)
  then have s: "sliceOK stride y pix" by simp
  then have y0: "0 \<le> y"
    by (auto simp: sliceOK_def zero_le_mult_iff)
  from s have "(y + 1) * 1 \<le> (y + 1) * stride"
    using y0 by (intro mult_left_mono) (auto simp: sliceOK_def)
  with s have "y + 1 \<le> int (length pix)"
    by (auto simp: sliceOK_def)
  with y0 show ?case
    by (auto simp: store_def)
qed

declare decodeRows.simps [simp del]

text \<open>
  The inner loops. \<open>unpack1\<close> is lines 185 to 194, \<open>unpack4\<close> lines 221 to 224,
  \<open>unpack8\<close> line 251, \<open>unpack24\<close> lines 276 to 282 (pass \<open>k\<close> has \<open>i = 4k\<close> and
  \<open>j = 3k\<close>) and \<open>unpack32\<close> lines 307 to 310 (pass \<open>k\<close> has \<open>i = 4k\<close>), where
  \<open>io.ReadFull\<close> has put the row read into \<open>p\<close> itself.
\<close>

definition unpack1 :: "int \<Rightarrow> byte list \<Rightarrow> byte list \<Rightarrow> error + byte list" where
  "unpack1 w row p =
     foldE (\<lambda>i p. bindE (getE row i) (\<lambda>b.
              putsE p [(i * 8 + 0, drop_bit 7 (b AND 0x80)),
                       (i * 8 + 1, drop_bit 6 (b AND 0x40)),
                       (i * 8 + 2, drop_bit 5 (b AND 0x20)),
                       (i * 8 + 3, drop_bit 4 (b AND 0x10)),
                       (i * 8 + 4, drop_bit 3 (b AND 0x08)),
                       (i * 8 + 5, drop_bit 2 (b AND 0x04)),
                       (i * 8 + 6, drop_bit 1 (b AND 0x02)),
                       (i * 8 + 7, b AND 0x01)]))
       [0..<nat ((w + 1) sdiv 8)] p"

definition unpack4 :: "int \<Rightarrow> byte list \<Rightarrow> byte list \<Rightarrow> error + byte list" where
  "unpack4 w row p =
     foldE (\<lambda>i p. bindE (getE row i) (\<lambda>b.
              putsE p [(i * 2 + 0, drop_bit 4 (b AND 0xf0)),
                       (i * 2 + 1, b AND 0xf)]))
       [0..<nat ((w + 1) sdiv 2)] p"

definition unpack8 :: "int \<Rightarrow> byte list \<Rightarrow> byte list \<Rightarrow> error + byte list" where
  "unpack8 w row p =
     (if w < 0 \<or> int (length row) < w then Inl (Panic SliceBoundsOutOfRange)
      else Inr (copy p (take (nat w) row)))"

definition unpack24 :: "int \<Rightarrow> byte list \<Rightarrow> byte list \<Rightarrow> error + byte list" where
  "unpack24 w row p =
     foldE (\<lambda>k p. let i = 4 * k; j = 3 * k in
              bindE (getE row (j + 2)) (\<lambda>v. bindE (setE p (i + 0) v) (\<lambda>p.
              bindE (getE row (j + 1)) (\<lambda>v. bindE (setE p (i + 1) v) (\<lambda>p.
              bindE (getE row (j + 0)) (\<lambda>v. bindE (setE p (i + 2) v) (\<lambda>p.
              setE p (i + 3) 0xff)))))))
       [0..<nat w] p"

definition unpack32 :: "int \<Rightarrow> byte list \<Rightarrow> byte list \<Rightarrow> error + byte list" where
  "unpack32 w row p =
     foldE (\<lambda>k p. let i = 4 * k in
              bindE (getE p (i + 2)) (\<lambda>a. bindE (getE p i) (\<lambda>b.
              bindE (setE p i a) (\<lambda>p. setE p (i + 2) b))))
       [0..<nat w] row"

text \<open>
  The five decode functions: the image is allocated, the row order chosen from
  \<open>isOpposite\<close>, and the rows decoded. \<open>make([]byte, n)\<close> panics on a negative \<open>n\<close>.
\<close>

definition rowOrder :: "decoder \<Rightarrow> int \<times> int \<times> bool" where
  "rowOrder d =
     (let h = cfg_Height (config d) in
      if isOpposite d then (0, h, True) else (h - 1, - 1, False))"

definition decodeInto ::
  "bool \<Rightarrow> (byte list \<Rightarrow> byte list \<Rightarrow> error + byte list) \<Rightarrow> int \<Rightarrow> decoder
     \<Rightarrow> byte list \<Rightarrow> image \<Rightarrow> error + image" where
  "decodeInto sliceFirst unpack rowLen d r img =
     (if rowLen < 0 then Inl (Panic MakeLenOutOfRange)
      else
        let (y0, y1, up) = rowOrder d in
        bindE (decodeRows sliceFirst unpack (nat rowLen) (Stride (buf img)) up y0 y1 r
                 (Pix (buf img)))
          (\<lambda>pix. Inr (withPix img pix)))"

definition decode1 :: "decoder \<Rightarrow> byte list \<Rightarrow> error + image" where
  "decode1 d r =
     (let w = cfg_Width (config d); h = cfg_Height (config d) in
      case cfg_ColorModel (config d) of
        RGBAModel \<Rightarrow> Inl (Panic TypeAssertionFailed)
      | Palette pal \<Rightarrow>
          decodeInto False (unpack1 w) ((w * bpp d + 31) sdiv 32 * 4) d r
            (NewPaletted (Rect 0 0 w h) pal))"

definition decode4 :: "decoder \<Rightarrow> byte list \<Rightarrow> error + image" where
  "decode4 d r =
     (let w = cfg_Width (config d); h = cfg_Height (config d) in
      case cfg_ColorModel (config d) of
        RGBAModel \<Rightarrow> Inl (Panic TypeAssertionFailed)
      | Palette pal \<Rightarrow>
          decodeInto False (unpack4 w) ((w * bpp d + 31) sdiv 32 * 4) d r
            (NewPaletted (Rect 0 0 w h) pal))"

definition decode8 :: "decoder \<Rightarrow> byte list \<Rightarrow> error + image" where
  "decode8 d r =
     (let w = cfg_Width (config d); h = cfg_Height (config d) in
      case cfg_ColorModel (config d) of
        RGBAModel \<Rightarrow> Inl (Panic TypeAssertionFailed)
      | Palette pal \<Rightarrow>
          decodeInto False (unpack8 w) ((w * bpp d + 31) sdiv 32 * 4) d r
            (NewPaletted (Rect 0 0 w h) pal))"

definition decode24 :: "decoder \<Rightarrow> byte list \<Rightarrow> error + image" where
  "decode24 d r =
     (let w = cfg_Width (config d); h = cfg_Height (config d) in
      decodeInto False (unpack24 w) ((w * 3 + 3) AND NOT 3) d r (NewRGBA (Rect 0 0 w h)))"

definition decode32 :: "decoder \<Rightarrow> byte list \<Rightarrow> error + image" where
  "decode32 d r =
     (let w = cfg_Width (config d); h = cfg_Height (config d);
          rgba = NewNRGBA (Rect 0 0 w h)
      in decodeInto True (unpack32 w) (Stride (buf rgba)) d r rgba)"

definition decode :: "decoder \<Rightarrow> byte list \<Rightarrow> error + image" where
  "decode d r =
     (if bpp d = 1 then decode1 d r
      else if bpp d = 4 then decode4 d r
      else if bpp d = 8 then decode8 d r
      else if bpp d = 24 then decode24 d r
      else if bpp d = 32 then decode32 d r
      else Inl (NotImplementedError (bpp d)))"

text \<open>\<open>bmp.Decode\<close>.\<close>

definition bmp_Decode :: "byte list \<Rightarrow> error + image" where
  "bmp_Decode r = bindE (newDecoder r) (\<lambda>(d, r'). decode d r')"

section \<open>Compositing (Go's package image/draw)\<close>

text \<open>
  A colour value is a \<open>color.RGBA\<close> (alpha-premultiplied) or a \<open>color.NRGBA\<close>.
  Their \<open>RGBA()\<close> methods return 16-bit channels as \<open>uint32\<close>; every intermediate
  value is below \<open>2^32\<close>, so the channels are natural numbers here.
\<close>

datatype color = ColorRGBA rgba | ColorNRGBA byte byte byte byte

fun RGBA16 :: "color \<Rightarrow> nat \<times> nat \<times> nat \<times> nat" where
  "RGBA16 (ColorRGBA (RGBA r g b a)) =
     (unat r * 0x101, unat g * 0x101, unat b * 0x101, unat a * 0x101)"
| "RGBA16 (ColorNRGBA r g b a) =
     (unat r * 0x101 * unat a div 0xff, unat g * 0x101 * unat a div 0xff,
      unat b * 0x101 * unat a div 0xff, unat a * 0x101)"

definition PixOffset :: "pixbuf \<Rightarrow> int \<Rightarrow> int \<Rightarrow> int \<Rightarrow> int" where
  "PixOffset b n x y = (y - MinY (Bounds b)) * Stride b + (x - MinX (Bounds b)) * n"

definition getI :: "'a list \<Rightarrow> int \<Rightarrow> error + 'a" where
  "getI xs i =
     (if 0 \<le> i \<and> i < int (length xs) then Inr (xs ! nat i) else Inl (Panic IndexOutOfRange))"

text \<open>The four bytes \<open>Pix[i : i+4 : i+4]\<close>.\<close>

definition get4 :: "byte list \<Rightarrow> int \<Rightarrow> error + (byte \<times> byte \<times> byte \<times> byte)" where
  "get4 xs i =
     (if 0 \<le> i \<and> i + 4 \<le> int (length xs)
      then Inr (xs ! nat i, xs ! nat (i + 1), xs ! nat (i + 2), xs ! nat (i + 3))
      else Inl (Panic SliceBoundsOutOfRange))"

definition put4 :: "byte list \<Rightarrow> int \<Rightarrow> byte \<Rightarrow> byte \<Rightarrow> byte \<Rightarrow> byte \<Rightarrow> error + byte list" where
  "put4 xs i a b c d =
     (if 0 \<le> i \<and> i + 4 \<le> int (length xs)
      then Inr (xs[nat i := a, nat (i + 1) := b, nat (i + 2) := c, nat (i + 3) := d])
      else Inl (Panic SliceBoundsOutOfRange))"

text \<open>
  The \<open>At\<close> methods. \<open>Paletted.At\<close> returns \<open>nil\<close> for an empty palette (the caller's
  \<open>RGBA()\<close> then panics), the first palette entry outside the bounds, and panics on
  a pixel index beyond the palette.
\<close>

fun At :: "image \<Rightarrow> int \<Rightarrow> int \<Rightarrow> error + color" where
  "At (Paletted pb pal) x y =
     (if pal = [] then Inl (Panic NilDereference)
      else if \<not> inRect x y (Bounds pb) then Inr (ColorRGBA (pal ! 0))
      else bindE (getI (Pix pb) (PixOffset pb 1 x y)) (\<lambda>i.
           bindE (getE pal (unat i)) (\<lambda>c. Inr (ColorRGBA c))))"
| "At (ImageRGBA pb) x y =
     (if \<not> inRect x y (Bounds pb) then Inr (ColorRGBA (RGBA 0 0 0 0))
      else bindE (get4 (Pix pb) (PixOffset pb 4 x y)) (\<lambda>(r, g, b, a).
           Inr (ColorRGBA (RGBA r g b a))))"
| "At (ImageNRGBA pb) x y =
     (if \<not> inRect x y (Bounds pb) then Inr (ColorNRGBA 0 0 0 0)
      else bindE (get4 (Pix pb) (PixOffset pb 4 x y)) (\<lambda>(r, g, b, a).
           Inr (ColorNRGBA r g b a)))"

definition Empty :: "rectangle \<Rightarrow> bool" where
  "Empty r = (MinX r \<ge> MaxX r \<or> MinY r \<ge> MaxY r)"

definition ZR :: rectangle where
  "ZR = \<lparr>MinX = 0, MinY = 0, MaxX = 0, MaxY = 0\<rparr>"

definition Intersect :: "rectangle \<Rightarrow> rectangle \<Rightarrow> rectangle" where
  "Intersect r s =
     (let t = \<lparr>MinX = max (MinX r) (MinX s), MinY = max (MinY r) (MinY s),
               MaxX = min (MaxX r) (MaxX s), MaxY = min (MaxY r) (MaxY s)\<rparr>
      in if Empty t then ZR else t)"

definition AddPt :: "rectangle \<Rightarrow> int \<Rightarrow> int \<Rightarrow> rectangle" where
  "AddPt r dx dy =
     \<lparr>MinX = MinX r + dx, MinY = MinY r + dy, MaxX = MaxX r + dx, MaxY = MaxY r + dy\<rparr>"

text \<open>
  \<open>draw.DrawMask(dst, r, src, image.Point{0, 0}, mask, image.Point{0, 0}, draw.Src)\<close>
  for a destination of type \<open>*image.RGBA\<close>: the rectangle is clipped to the three
  images, and \<open>drawRGBA\<close> stores, for every point of it, the source colour scaled by
  the mask's alpha (\<open>blendSrc\<close>): \<open>uint8(s * ma / m >> 8)\<close> with \<open>m = 1<<16 - 1\<close>.
\<close>

definition blendSrc :: "color \<Rightarrow> color \<Rightarrow> byte \<times> byte \<times> byte \<times> byte" where
  "blendSrc mc sc =
     (let (mr, mg, mb, ma) = RGBA16 mc; (sr, sg, sb, sa) = RGBA16 sc; m = 0xffff in
      (of_nat (sr * ma div m div 256), of_nat (sg * ma div m div 256),
       of_nat (sb * ma div m div 256), of_nat (sa * ma div m div 256)))"

definition drawPixel :: "pixbuf \<Rightarrow> int \<Rightarrow> int \<Rightarrow> image \<Rightarrow> image \<Rightarrow> int \<Rightarrow> int \<Rightarrow> byte list
    \<Rightarrow> error + byte list" where
  "drawPixel dst ox oy src msk y x pix =
     bindE (At msk (x - ox) (y - oy)) (\<lambda>mc.
     bindE (At src (x - ox) (y - oy)) (\<lambda>sc.
       let (a, b, c, d) = blendSrc mc sc in
       put4 pix (PixOffset dst 4 x y) a b c d))"

definition DrawMaskSrc :: "pixbuf \<Rightarrow> rectangle \<Rightarrow> image \<Rightarrow> image \<Rightarrow> error + pixbuf" where
  "DrawMaskSrc dst r src msk =
     (let ox = MinX r; oy = MinY r;
          r = Intersect r (Bounds dst);
          r = Intersect r (AddPt (Bounds (buf src)) ox oy);
          r = Intersect r (AddPt (Bounds (buf msk)) ox oy)
      in if Empty r then Inr dst
         else bindE (foldE (\<lambda>y. foldE (drawPixel dst ox oy src msk y) [MinX r..MaxX r - 1])
                       [MinY r..MaxY r - 1] (Pix dst))
                (\<lambda>pix. Inr (dst\<lparr>Pix := pix\<rparr>)))"

section \<open>Decoding a container (ico.go, Decode)\<close>

text \<open>
  Lines 234 to 240: the mask's palette entry 1 becomes transparent, and the XOR image
  is drawn through the mask into a new RGBA image.
\<close>

definition composite :: "image \<Rightarrow> image \<Rightarrow> error + image" where
  "composite xorImg andImg =
     (case andImg of
        Paletted mb pal \<Rightarrow>
          bindE (setE pal 1 (RGBA 0 0 0 0)) (\<lambda>pal'.
            let img = newBuf 4 (Bounds (buf xorImg)) in
            bindE (DrawMaskSrc img (Bounds img) xorImg (Paletted mb pal')) (\<lambda>img'.
              Inr (ImageRGBA img')))
      | _ \<Rightarrow> Inl (Panic TypeAssertionFailed))"

definition PNG :: "byte list" where
  "PNG = [0x50, 0x4E, 0x47]"

text \<open>
  One pass of the loop of \<open>Decode\<close>. \<open>bufr\<close> is what \<open>ioutil.ReadAll\<close> returned and
  \<open>spare\<close> the bytes of its backing array beyond its length: Go checks the slice
  expressions \<open>buf[offset : offset+size]\<close> and \<open>data[1:4]\<close> against the capacity,
  which \<open>ReadAll\<close> leaves to the run time. \<open>n\<close> is \<open>len(ds)\<close>; \<open>offset\<close> and
  \<open>size\<close> are \<open>int32\<close>, and \<open>payloadRange\<close> gives \<open>offset\<close> and \<open>offset+size\<close>
  (lines 203 to 205). The PNG decoder is outside the repository: \<open>png\<close>.
  \<open>decodeBMP\<close> is the rest of the pass for a payload that is not PNG (lines 217 to
  240).
\<close>

definition payloadRange :: "directory \<Rightarrow> nat \<Rightarrow> int \<times> int" where
  "payloadRange v n =
     (let offset = dir_ImageOffset v - word_of_nat (6 + 16 * n);
          sz = dir_BytesInRes v
      in (sint offset, sint (offset + sz)))"

definition decodeBMP :: "directory \<Rightarrow> byte list \<Rightarrow> error + image" where
  "decodeBMP v data =
     bindE (newBMPReader v data) (\<lambda>(xorS, andS).
     bindE (bmp_Decode xorS) (\<lambda>xorImg.
     bindE (bmp_Decode andS) (\<lambda>andImg.
       composite xorImg andImg)))"

definition decodeEntry ::
  "(byte list \<Rightarrow> error + image) \<Rightarrow> byte list \<Rightarrow> byte list \<Rightarrow> nat \<Rightarrow> directory
     \<Rightarrow> error + image" where
  "decodeEntry png bufr spare n v =
     (let (lo, hi) = payloadRange v n;
          arr = bufr @ spare
      in if \<not> (0 \<le> lo \<and> lo \<le> hi \<and> hi \<le> int (length arr))
         then Inl (Panic SliceBoundsOutOfRange)
         else
           let data = take (nat (hi - lo)) (drop (nat lo) arr);
               backing = drop (nat lo) arr
           in if length backing < 4 then Inl (Panic SliceBoundsOutOfRange)
              else if take 3 (drop 1 backing) = PNG then png data
              else decodeBMP v data)"

fun mapE :: "('a \<Rightarrow> error + 'b) \<Rightarrow> 'a list \<Rightarrow> error + 'b list" where
  "mapE f [] = Inr []"
| "mapE f (x # xs) = bindE (f x) (\<lambda>y. bindE (mapE f xs) (\<lambda>ys. Inr (y # ys)))"

definition Decode ::
  "(byte list \<Rightarrow> error + image) \<Rightarrow> byte list \<Rightarrow> byte list \<Rightarrow> error + image list" where
  "Decode png spare r =
     bindE (readHeader r) (\<lambda>(h, r1).
     bindE (readDirectoris r1 (sint (hdr_Count h))) (\<lambda>(ds, bufr).
       mapE (decodeEntry png bufr spare (length ds)) ds))"

text \<open>
  Bitmap streams with a 14-byte file header and a 40-byte info header of the given
  width, height and bit depth (planes 1, no compression, \<open>ColorUsed\<close> 0), used in
  the examples below.
\<close>

definition ex_bmp_header :: "32 word \<Rightarrow> 32 word \<Rightarrow> 16 word \<Rightarrow> byte list" where
  "ex_bmp_header w h b =
     BM @ put32 0 @ put16 0 @ put16 0 @ put32 54
        @ put32 40 @ put32 w @ put32 h @ put16 1 @ put16 b
        @ put32 0 @ put32 0 @ put32 0 @ put32 0 @ put32 0 @ put32 0"

text \<open>A two-entry palette: black, white.\<close>

definition ex_palette2 :: "byte list" where
  "ex_palette2 = [0, 0, 0, 0,  255, 255, 255, 0]"

section \<open>Auxiliary notions for the properties\<close>

text \<open>A result of an inner loop: an index panic, or a slice of the given length.\<close>

definition okOrIndexPanic :: "nat \<Rightarrow> error + 'a list \<Rightarrow> bool" where
  "okOrIndexPanic n res =
     (case res of Inl e \<Rightarrow> e = Panic IndexOutOfRange | Inr p \<Rightarrow> length p = n)"

text \<open>
  The errors that the spec calls \<open>TruncatedData\<close>: the two errors of package \<open>io\<close>
  for an input that ends early.
\<close>

fun TruncatedData :: "error \<Rightarrow> bool" where
  "TruncatedData EOF = True"
| "TruncatedData ErrUnexpectedEOF = True"
| "TruncatedData _ = False"

text \<open>
  A stand-in for the PNG decoder, and a container of one entry whose payload
  (\<open>ex_payload\<close>, 48 bytes declared) lacks its last byte.
\<close>

definition ex_png :: "byte list \<Rightarrow> error + image" where
  "ex_png data = Inl (PNGError ''not modelled'')"

definition ex_container_header :: "byte list" where
  "ex_container_header =
     [0, 0, 1, 0, 1, 0,
      1, 1, 0, 0,  1, 0,  32, 0,  48, 0, 0, 0,  22, 0, 0, 0]"

definition ex_truncated :: "byte list" where
  "ex_truncated = ex_container_header @ take 47 ex_payload"

text \<open>The container of one entry with the whole of \<open>ex_payload\<close>.\<close>

definition ex_icon :: "byte list" where
  "ex_icon = ex_container_header @ ex_payload"

text \<open>
  The same container with the offset 0 declared for its entry (\<open>ex_dir0\<close> is the
  entry as parsed): the range of the payload starts 22 bytes before the buffer.
\<close>

definition ex_dir0 :: directory where
  "ex_dir0 = ex_dir\<lparr>dir_ImageOffset := 0\<rparr>"

definition ex_offset0 :: "byte list" where
  "ex_offset0 =
     [0, 0, 1, 0, 1, 0,
      1, 1, 0, 0,  1, 0,  32, 0,  48, 0, 0, 0,  0, 0, 0, 0] @ ex_payload"

text \<open>
  The spare bytes of a buffer of \<open>len\<close> bytes whose backing array has 512 bytes,
  all zero beyond the length: what \<open>ReadAll\<close> leaves for a short input.
\<close>

definition ex_spare :: "nat \<Rightarrow> byte list" where
  "ex_spare len = replicate (512 - len) 0"

text \<open>The \<open>k\<close>-th row of \<open>rowLen\<close> bytes that a stream stores.\<close>

definition storedRow :: "byte list \<Rightarrow> nat \<Rightarrow> nat \<Rightarrow> byte list" where
  "storedRow r rowLen k = take rowLen (drop (k * rowLen) r)"

text \<open>Row \<open>y\<close> of an image, counted from the top.\<close>

definition imageRow :: "image \<Rightarrow> nat \<Rightarrow> byte list" where
  "imageRow img y = rowAt (Pix (buf img)) (y * nat (Stride (buf img))) (nat (Stride (buf img)))"

text \<open>
  The inner loop and the row length that \<open>decode\<close> uses for a decoder: those of
  \<open>decode1\<close>, \<open>decode4\<close>, \<open>decode8\<close>, \<open>decode24\<close> or \<open>decode32\<close>.
\<close>

definition rowUnpack :: "decoder \<Rightarrow> byte list \<Rightarrow> byte list \<Rightarrow> error + byte list" where
  "rowUnpack d =
     (let w = cfg_Width (config d) in
      if bpp d = 1 then unpack1 w
      else if bpp d = 4 then unpack4 w
      else if bpp d = 8 then unpack8 w
      else if bpp d = 24 then unpack24 w
      else unpack32 w)"

definition rowLength :: "decoder \<Rightarrow> nat" where
  "rowLength d =
     (let w = cfg_Width (config d) in
      if bpp d = 24 then nat ((w * 3 + 3) AND NOT 3)
      else if bpp d = 32 then nat (4 * w)
      else nat ((w * bpp d + 31) sdiv 32 * 4))"

text \<open>
  Two 24-bit bitmaps of 2 by 2 pixels with the same stored rows: the first with
  height 2, the second with height -2.
\<close>

definition ex_rows24 :: "byte list" where
  "ex_rows24 = [1, 2, 3,  4, 5, 6,  0, 0,   7, 8, 9,  10, 11, 12,  0, 0]"

definition ex_bottom_up :: "byte list" where
  "ex_bottom_up = ex_bmp_header 2 2 24 @ ex_rows24"

definition ex_top_down :: "byte list" where
  "ex_top_down = ex_bmp_header 2 (- 2) 24 @ ex_rows24"

text \<open>
  The 8-bit alpha-premultiplied value of a colour, which \<open>drawRGBA\<close> stores where the
  mask is opaque: the high bytes of the 16-bit channels.
\<close>

definition premul8 :: "color \<Rightarrow> rgba" where
  "premul8 c =
     (let (r, g, b, a) = RGBA16 c
      in RGBA (of_nat (r div 256)) (of_nat (g div 256)) (of_nat (b div 256))
              (of_nat (a div 256)))"

text \<open>The alpha of a colour, as stored.\<close>

fun alphaOf :: "color \<Rightarrow> byte" where
  "alphaOf (ColorRGBA c) = cA c"
| "alphaOf (ColorNRGBA r g b a) = a"

text \<open>
  The two streams that \<open>newBMPReader\<close> makes of \<open>ex_dir\<close> and \<open>ex_payload\<close>, and
  the images that \<open>bmp.Decode\<close> makes of them.
\<close>

definition ex_xor_stream :: "byte list" where
  "ex_xor_stream =
     [0x42, 0x4D,  58, 0, 0, 0,  0, 0,  0, 0,  54, 0, 0, 0,
      40, 0, 0, 0,  1, 0, 0, 0,  1, 0, 0, 0,  1, 0,  32, 0,  0, 0, 0, 0,  0, 0, 0, 0,
      0, 0, 0, 0,  0, 0, 0, 0,  0, 0, 0, 0,  0, 0, 0, 0,
      10, 20, 30, 128]"

definition ex_and_stream :: "byte list" where
  "ex_and_stream =
     [0x42, 0x4D,  66, 0, 0, 0,  0, 0,  0, 0,  62, 0, 0, 0,
      40, 0, 0, 0,  1, 0, 0, 0,  1, 0, 0, 0,  0, 0,  1, 0,  0, 0, 0, 0,  0, 0, 0, 0,
      0, 0, 0, 0,  0, 0, 0, 0,  0, 0, 0, 0,  0, 0, 0, 0,
      0, 0, 0, 255,  255, 255, 255, 255,  0, 0, 0, 0]"

definition ex_xorImg :: image where
  "ex_xorImg = ImageNRGBA \<lparr>Pix = [30, 20, 10, 128], Stride = 4,
                 Bounds = \<lparr>MinX = 0, MinY = 0, MaxX = 1, MaxY = 1\<rparr>\<rparr>"

definition ex_andImg :: image where
  "ex_andImg = Paletted \<lparr>Pix = [0], Stride = 1,
                 Bounds = \<lparr>MinX = 0, MinY = 0, MaxX = 1, MaxY = 1\<rparr>\<rparr>
                 [RGBA 0 0 0 255, RGBA 255 255 255 255]"

definition ex_composite :: image where
  "ex_composite = ImageRGBA \<lparr>Pix = [15, 10, 5, 128], Stride = 4,
                    Bounds = \<lparr>MinX = 0, MinY = 0, MaxX = 1, MaxY = 1\<rparr>\<rparr>"

text \<open>The four channel bytes of a colour, as stored.\<close>

fun storedRGBA :: "color \<Rightarrow> rgba" where
  "storedRGBA (ColorRGBA c) = c"
| "storedRGBA (ColorNRGBA r g b a) = RGBA r g b a"

text \<open>
  A second entry: 8 by 1 pixels of 24 bits, and an AND mask whose bits mark every
  other pixel (\<open>0xAA\<close>), with the two streams, the images that \<open>bmp.Decode\<close> makes of
  them, and the composite.
\<close>

definition ex_dir24 :: directory where
  "ex_dir24 = \<lparr>dir_Width = 8, dir_Height = 1, dir_ColorCount = 0, dir_Reserved = 0,
      dir_Planes = 1, dir_BitCount = 24, dir_BytesInRes = 68, dir_ImageOffset = 22\<rparr>"

definition ex_payload24 :: "byte list" where
  "ex_payload24 =
     [40, 0, 0, 0,  8, 0, 0, 0,  2, 0, 0, 0,  1, 0,  24, 0,  0, 0, 0, 0,  0, 0, 0, 0,
      0, 0, 0, 0,  0, 0, 0, 0,  0, 0, 0, 0,  0, 0, 0, 0,
      1, 2, 3,  4, 5, 6,  7, 8, 9,  10, 11, 12,  13, 14, 15,  16, 17, 18,  19, 20, 21,
      22, 23, 24,
      0xAA, 0, 0, 0]"

definition ex_xor_stream24 :: "byte list" where
  "ex_xor_stream24 =
     [0x42, 0x4D,  78, 0, 0, 0,  0, 0,  0, 0,  54, 0, 0, 0,
      40, 0, 0, 0,  8, 0, 0, 0,  1, 0, 0, 0,  1, 0,  24, 0,  0, 0, 0, 0,  0, 0, 0, 0,
      0, 0, 0, 0,  0, 0, 0, 0,  0, 0, 0, 0,  0, 0, 0, 0,
      1, 2, 3,  4, 5, 6,  7, 8, 9,  10, 11, 12,  13, 14, 15,  16, 17, 18,  19, 20, 21,
      22, 23, 24]"

definition ex_and_stream24 :: "byte list" where
  "ex_and_stream24 =
     [0x42, 0x4D,  66, 0, 0, 0,  0, 0,  0, 0,  62, 0, 0, 0,
      40, 0, 0, 0,  8, 0, 0, 0,  1, 0, 0, 0,  0, 0,  1, 0,  0, 0, 0, 0,  0, 0, 0, 0,
      0, 0, 0, 0,  0, 0, 0, 0,  0, 0, 0, 0,  0, 0, 0, 0,
      0, 0, 0, 255,  255, 255, 255, 255,  0xAA, 0, 0, 0]"

definition ex_bounds24 :: rectangle where
  "ex_bounds24 = \<lparr>MinX = 0, MinY = 0, MaxX = 8, MaxY = 1\<rparr>"

definition ex_xorImg24 :: image where
  "ex_xorImg24 = ImageRGBA \<lparr>Pix =
       [3, 2, 1, 255,  6, 5, 4, 255,  9, 8, 7, 255,  12, 11, 10, 255,
        15, 14, 13, 255,  18, 17, 16, 255,  21, 20, 19, 255,  24, 23, 22, 255],
     Stride = 32, Bounds = ex_bounds24\<rparr>"

definition ex_andImg24 :: image where
  "ex_andImg24 = Paletted \<lparr>Pix = [1, 0, 1, 0, 1, 0, 1, 0], Stride = 8,
                   Bounds = ex_bounds24\<rparr>
                   [RGBA 0 0 0 255, RGBA 255 255 255 255]"

definition ex_composite24 :: image where
  "ex_composite24 = ImageRGBA \<lparr>Pix =
       [0, 0, 0, 0,  6, 5, 4, 255,  0, 0, 0, 0,  12, 11, 10, 255,
        0, 0, 0, 0,  18, 17, 16, 255,  0, 0, 0, 0,  24, 23, 22, 255],
     Stride = 32, Bounds = ex_bounds24\<rparr>"

chapter \<open>Properties\<close>

section \<open>The container parser\<close>

text \<open>
  C5. \<open>readHeader\<close> returns an error exactly when the type marker read is not 1 or
  the entry count read is at most 0 (as a signed 16-bit number), and every error it
  returns is one of the two \<open>InvalidContainerHeader\<close> errors.
\<close>

theorem readHeader_error_iff:
  "(\<exists>e. readHeader r = Inl e \<and> InvalidContainerHeader e)
     = (hdr_ImageType (header_read r) \<noteq> 1 \<or> sint (hdr_Count (header_read r)) \<le> 0)
   \<and> (\<forall>e. readHeader r = Inl e \<longrightarrow> InvalidContainerHeader e)
   \<and> (6 \<le> length r \<longrightarrow>
        hdr_ImageType (header_read r) = u16_at r 2 \<and> hdr_Count (header_read r) = u16_at r 4)"
  by (auto simp: readHeader_def Let_def header_read_def ReadFull_def u16_at_def)

theorem readHeader_boundary_cases:
  "readHeader [0, 0, 1, 0, 0, 0] = Inl (CountError 0)
   \<and> readHeader [0, 0, 0, 0, 1, 0] = Inl (ImageTypeError 0)
   \<and> readHeader [0, 0, 2, 0, 1, 0] = Inl (ImageTypeError 2)
   \<and> readHeader [0, 0, 1, 0, 0xFF, 0xFF] = Inl (CountError 0xFFFF)
   \<and> readHeader [0, 0, 1] = Inl (ImageTypeError 0)
   \<and> (\<exists>h. readHeader [0, 0, 1, 0, 1, 0, 7] = Inr (h, [7]))"
  using readHeader_error_iff [of "[0, 0, 1, 0, 0, 0]"]
  by (simp add: readHeader_def Let_def header_read_def ReadFull_def u16_at_def after_read_def)

text \<open>
  C9. For a size that is not negative \<open>readDirectoris\<close> never returns an error: it
  returns \<open>size\<close> entries, and when fewer than \<open>16 * size\<close> bytes are left every
  entry holds the zero value.
\<close>

theorem readDirectoris_never_fails:
  "0 \<le> sz \<Longrightarrow>
     \<exists>ds r'. readDirectoris r sz = Inr (ds, r') \<and> int (length ds) = sz
       \<and> (length r < 16 * nat sz \<longrightarrow> ds = replicate (nat sz) zero_directory)"
  by (auto simp: readDirectoris_def Let_def ReadFull_def)

theorem readDirectoris_short_input:
  "readDirectoris [1, 2, 3, 4, 5, 6, 7, 8, 9, 10, 11, 12, 13, 14, 15, 16, 17] 2
     = Inr ([zero_directory, zero_directory], [])"
  using readDirectoris_never_fails [of 2 "[1, 2, 3, 4, 5, 6, 7, 8, 9, 10, 11, 12, 13, 14, 15, 16, 17]"]
  by (simp add: readDirectoris_def Let_def ReadFull_def after_read_def numeral_2_eq_2)

section \<open>The bitmap header synthesizer\<close>

subsection \<open>Little-endian encoding after decoding gives the bytes back\<close>



lemma unat_ucast_up:
  "LENGTH('a) \<le> LENGTH('b) \<Longrightarrow> unat (ucast (x :: 'a::len word) :: 'b::len word) = unat x"
  by (simp add: unsigned_ucast_eq take_bit_nat_eq_self_iff
        order_less_le_trans [OF unsigned_less])

lemma unat_le_32: "unat (x :: 32 word) < 4294967296"
  using unsigned_less [of x, where 'a = nat] by simp

lemma unat_le_16: "unat (x :: 16 word) < 65536"
  using unsigned_less [of x, where 'a = nat] by simp

lemma unat_le_8: "unat (x :: 8 word) < 256"
  using unsigned_less [of x, where 'a = nat] by simp

lemma unat_mult_nowrap:
  "unat x * unat y < 2 ^ LENGTH('a) \<Longrightarrow> unat (x * y) = unat x * unat y"
  for x y :: "'a::len word"
  by (simp add: unat_mult_lem)

lemma unat_add_nowrap:
  "unat x + unat y < 2 ^ LENGTH('a) \<Longrightarrow> unat (x + y) = unat x + unat y"
  for x y :: "'a::len word"
  by (simp add: unat_add_lem)

lemma unat_push_bit_1:
  "n < 16 \<Longrightarrow> unat (push_bit n 1 :: 64 word) = 2 ^ n"
proof -
  assume n: "n < 16"
  have "(2::nat) ^ n < 2 ^ 16"
    by (rule power_strict_increasing) (use n in simp_all)
  then have lt: "(2::nat) ^ n < 2 ^ 64" by simp
  have "(push_bit n 1 :: 64 word) = word_of_nat (2 ^ n)" by simp
  then have "unat (push_bit n 1 :: 64 word) = 2 ^ n mod 2 ^ 64"
    by (simp only: unat_of_nat) simp
  then show ?thesis using lt by simp
qed

lemma unat_psize:
  "unat (psize ih) =
     (if ih_ColorUsed ih = 0 \<and> unat (ih_BitCount ih) < 16
      then 2 ^ unat (ih_BitCount ih) * 4 else unat (ih_ColorUsed ih) * 4)"
proof -
  have cu: "unat (ucast (ih_ColorUsed ih) * 4 :: 64 word) = unat (ih_ColorUsed ih) * 4"
    using unat_le_32 [of "ih_ColorUsed ih"]
    by (subst unat_mult_nowrap) (simp_all add: unat_ucast_up)
  have z: "(ucast (ih_ColorUsed ih) * 4 = (0 :: 64 word)) = (ih_ColorUsed ih = 0)"
    using cu by (metis mult_eq_0_iff unat_eq_zero zero_neq_numeral)
  have lt: "(ih_BitCount ih < 16) = (unat (ih_BitCount ih) < 16)"
    by (simp add: word_less_nat_alt)
  have p: "unat (push_bit n 1 * 4 :: 64 word) = 2 ^ n * 4" if "n < 16" for n
  proof -
    have "(2::nat) ^ n < 2 ^ 16"
      by (rule power_strict_increasing) (use that in simp_all)
    then have "(2::nat) ^ n * 4 < 2 ^ 64" by simp
    then show ?thesis
      using unat_push_bit_1 [OF that] by (subst unat_mult_nowrap) simp_all
  qed
  have p': "unat (2 ^ n * 4 :: 64 word) = 2 ^ n * 4" if "n < 16" for n
    using p [OF that] by simp
  show ?thesis
    by (simp add: psize_def Let_def z lt cu p')
qed

lemma unat_rowCount:
  "unat (rowCount dir) = (if dir_Height dir = 0 then 256 else unat (dir_Height dir))"
  by (auto simp: rowCount_def Let_def unat_ucast_up unat_eq_zero [symmetric] simp del: unat_eq_zero)

lemma unat_rowBytes:
  "unat (rowBytes dir ih) =
     ((if dir_Width dir = 0 then 256 else unat (dir_Width dir)) * unat (ih_BitCount ih) + 31)
        div 32 * 4"
proof -
  define w :: nat where "w = (if dir_Width dir = 0 then 256 else unat (dir_Width dir))"
  define W :: "64 word" where
    "W = (let w = ucast (dir_Width dir) in if w = 0 then 256 else w)"
  define b where "b = unat (ih_BitCount ih)"
  have W: "unat W = w"
    by (auto simp: W_def w_def Let_def unat_ucast_up unat_eq_zero [symmetric] simp del: unat_eq_zero)
  have B: "unat (ucast (ih_BitCount ih) :: 64 word) = b"
    by (simp add: b_def unat_ucast_up)
  have wb: "w \<le> 256"
    using unat_le_8 [of "dir_Width dir"] by (simp add: w_def)
  have bb: "b < 65536" unfolding b_def by (rule unat_le_16)
  have "w * b \<le> 256 * 65536"
    using wb bb by (intro mult_mono) simp_all
  then have m: "w * b + 31 < 2 ^ 32" by simp
  have 0: "unat (W * ucast (ih_BitCount ih)) = w * b"
    using m by (subst unat_mult_nowrap) (simp_all add: W B)
  have 1: "unat (W * ucast (ih_BitCount ih) + 31) = w * b + 31"
    using m by (subst unat_add_nowrap) (simp_all add: 0)
  have 2: "unat ((W * ucast (ih_BitCount ih) + 31) div 32) = (w * b + 31) div 32"
    by (simp add: unat_div 1)
  have "(w * b + 31) div 32 * 4 < 2 ^ 64"
    using m by simp
  then have "unat ((W * ucast (ih_BitCount ih) + 31) div 32 * 4) = (w * b + 31) div 32 * 4"
    by (subst unat_mult_nowrap) (simp_all add: 2)
  then show ?thesis
    by (simp add: rowBytes_def W_def w_def b_def Let_def)
qed

lemma rowBytes_le: "unat (rowBytes dir ih) \<le> 2097152"
proof -
  have "unat (dir_Width dir) < 256" by (rule unat_le_8)
  moreover have "unat (ih_BitCount ih) < 65536" by (rule unat_le_16)
  ultimately have "(if dir_Width dir = 0 then 256 else unat (dir_Width dir)) * unat (ih_BitCount ih)
      \<le> 256 * 65536"
    by (intro mult_mono) auto
  then show ?thesis by (simp add: unat_rowBytes)
qed

lemma psize_le: "unat (psize ih) \<le> 17179869184"
proof (cases "ih_ColorUsed ih = 0 \<and> unat (ih_BitCount ih) < 16")
  case True
  then have "(2::nat) ^ unat (ih_BitCount ih) < 2 ^ 16"
    by (intro power_strict_increasing) simp_all
  with True show ?thesis by (simp add: unat_psize)
next
  case False
  then show ?thesis
    using unat_le_32 [of "ih_ColorUsed ih"] by (auto simp: unat_psize)
qed

lemma unat_xorSize:
  "unat (xorSize dir ih) = unat (psize ih) + unat (rowBytes dir ih) * unat (rowCount dir)"
proof -
  have h: "unat (rowCount dir) \<le> 256"
    using unat_le_8 [of "dir_Height dir"] by (simp add: unat_rowCount)
  have "unat (rowBytes dir ih) * unat (rowCount dir) \<le> 2097152 * 256"
    using rowBytes_le h by (rule mult_mono) simp_all
  then have m: "unat (rowBytes dir ih) * unat (rowCount dir) \<le> 536870912" by simp
  have 1: "unat (rowBytes dir ih * rowCount dir) = unat (rowBytes dir ih) * unat (rowCount dir)"
    using m by (subst unat_mult_nowrap) simp_all
  show ?thesis
    unfolding xorSize_def
    using m psize_le [of ih] by (subst unat_add_nowrap) (simp_all add: 1)
qed







lemma u32_at_take: "k + 4 \<le> n \<Longrightarrow> u32_at (take n b) k = u32_at b k"
  by (simp add: u32_at_def)

lemma u16_at_take: "k + 2 \<le> n \<Longrightarrow> u16_at (take n b) k = u16_at b k"
  by (simp add: u16_at_def)

lemma u32_at_drop: "j + k + 4 \<le> length b \<Longrightarrow> u32_at (drop j b) k = u32_at b (j + k)"
  by (simp add: u32_at_def add.assoc)

lemma u16_at_drop: "j + k + 2 \<le> length b \<Longrightarrow> u16_at (drop j b) k = u16_at b (j + k)"
  by (simp add: u16_at_def add.assoc)

text \<open>The header that ReadInfoHeader decodes from the first 40 bytes.\<close>

lemma ReadInfoHeader_Inr:
  assumes "ReadInfoHeader data = Inr (ih, d)"
  shows "40 \<le> length data" and "d = drop 40 data"
    and "ih_Size ih = u32_at data 0" and "ih_Width ih = u32_at data 4"
    and "ih_Height ih = u32_at data 8" and "ih_Planes ih = u16_at data 12"
    and "ih_BitCount ih = u16_at data 14" and "ih_Compression ih = u32_at data 16"
    and "ih_SizeImage ih = u32_at data 20" and "ih_XPelsPerMeter ih = u32_at data 24"
    and "ih_YPelsPerMeter ih = u32_at data 28" and "ih_ColorUsed ih = u32_at data 32"
    and "ih_ColorImportant ih = u32_at data 36"
    and "0 < sint (ih_Width ih)" and "ih_Height ih \<noteq> 0"
  using assms
  by (auto simp: ReadInfoHeader_def ReadFull_def Let_def u32_at_take u16_at_take
        u32_at_drop u16_at_drop split: if_splits)



text \<open>
  C3. The XOR block size is the palette size plus row stride times height, without
  wrap-around: the palette size is \<open>ColorUsed * 4\<close>, or \<open>(1 << BitCount) * 4\<close> when
  \<open>ColorUsed\<close> is 0 and the bit depth is below 16; the stride is
  \<open>(width * BitCount + 31) / 32 * 4\<close>; width and height are the directory entry's
  bytes with 0 read as 256.
\<close>

theorem xorSize_formula:
  "unat (xorSize dir ih) =
     (if ih_ColorUsed ih = 0 \<and> unat (ih_BitCount ih) < 16
      then 2 ^ unat (ih_BitCount ih) * 4 else unat (ih_ColorUsed ih) * 4)
     + ((if dir_Width dir = 0 then 256 else unat (dir_Width dir)) * unat (ih_BitCount ih) + 31)
         div 32 * 4
       * (if dir_Height dir = 0 then 256 else unat (dir_Height dir))"
  by (simp only: unat_xorSize unat_psize unat_rowBytes unat_rowCount)



section \<open>The bitmap decoder\<close>

text \<open>The definitions that an evaluation of the decoder on a concrete stream unfolds.\<close>

lemmas ex_eval = ex_bmp_header_def ex_palette2_def BM_def put32_def put16_def
  bmp_Decode_def newDecoder_def supportedSize_def indexedDepth_def directDepth_def
  readFileHeader_def ReadInfoHeader_def ReadFull_def
  u16_at_def u32_at_def bindE_def Let_def colorBGR_RGBA_def
  decode_def decode1_def decode4_def decode8_def decode24_def decode32_def decodeInto_def
  rowOrder_def NewPaletted_def NewRGBA_def NewNRGBA_def newBuf_def Rect_def Dx_def Dy_def
  unpack1_def unpack4_def unpack8_def unpack24_def unpack32_def
  putsE_def getE_def setE_def sliceOK_def rowAt_def store_def copy_def
  signed_divide_int_def

text \<open>
  C8. A stream whose headers pass every check of \<open>newDecoder\<close> and whose bit depth
  is 16 gets the direct colour model \<open>color.RGBAModel\<close>, and \<open>decode\<close> fails at once
  with the error "the bpp decode function isn't implemented" (the spec's
  \<open>UnsupportedColorDepth\<close>), whatever pixel data follows: no row is read or unpacked.
\<close>

theorem decode_16bit_not_implemented:
  assumes "readFileHeader r = Inr (fh, r1)" and "ReadInfoHeader r1 = Inr (ih, r2)"
    and "ih_Size ih \<in> {40, 108, 124}" and "ih_Compression ih = 0" and "ih_BitCount ih = 16"
  shows "\<exists>d. newDecoder r = Inr (d, r2) \<and> bpp d = 16 \<and> cfg_ColorModel (config d) = RGBAModel
           \<and> decode d r2 = Inl (NotImplementedError 16)
           \<and> bmp_Decode r = Inl (NotImplementedError 16)"
  using assms
  by (auto simp: newDecoder_def supportedSize_def indexedDepth_def directDepth_def
        bmp_Decode_def bindE_def decode_def Let_def split: prod.splits)

theorem decode_16bit_example:
  "bmp_Decode (ex_bmp_header 2 2 16 @ [1, 2, 3, 4, 5, 6, 7, 8]) = Inl (NotImplementedError 16)
   \<and> (\<exists>d. newDecoder (ex_bmp_header 2 2 16 @ [1, 2, 3, 4, 5, 6, 7, 8])
            = Inr (d, [1, 2, 3, 4, 5, 6, 7, 8])
          \<and> cfg_ColorModel (config d) = RGBAModel)"
proof -
  let ?r = "ex_bmp_header 2 2 16 @ [1, 2, 3, 4, 5, 6, 7, 8]"
  obtain fh where a: "readFileHeader ?r = Inr (fh, drop 14 ?r)"
    by (simp add: ex_eval)
  obtain ih where b: "ReadInfoHeader (drop 14 ?r) = Inr (ih, [1, 2, 3, 4, 5, 6, 7, 8])"
    and c: "ih_Size ih = 40" "ih_Compression ih = 0" "ih_BitCount ih = 16"
    by (simp add: ex_eval)
  from c have "ih_Size ih \<in> {40, 108, 124}" by simp
  from decode_16bit_not_implemented [OF a b this c(2,3)] show ?thesis by blast
qed

subsection \<open>The inner loops of \<open>decode1\<close> and \<open>decode4\<close>\<close>

lemma foldE_append: "foldE f (xs @ ys) s = bindE (foldE f xs s) (foldE f ys)"
  by (induction xs arbitrary: s) (auto simp: bindE_def split: sum.splits)

text \<open>The inner loops only fail with an index panic, and keep the length of \<open>p\<close>.\<close>

lemma okOrIndexPanic_setE: "length p = n \<Longrightarrow> okOrIndexPanic n (setE p i v)"
  by (simp add: okOrIndexPanic_def setE_def)

lemma okOrIndexPanic_bindE:
  assumes "okOrIndexPanic n m" and "\<And>p. length p = n \<Longrightarrow> okOrIndexPanic n (f p)"
  shows "okOrIndexPanic n (bindE m f)"
proof (cases m)
  case (Inl e)
  with assms(1) show ?thesis by (simp add: okOrIndexPanic_def bindE_def)
next
  case (Inr q)
  with assms(1) have "length q = n" by (simp add: okOrIndexPanic_def)
  from assms(2) [OF this] Inr show ?thesis by (simp add: bindE_def)
qed

lemma okOrIndexPanic_getE:
  "(\<And>b. okOrIndexPanic n (f b)) \<Longrightarrow> okOrIndexPanic n (bindE (getE row i) f)"
  by (auto simp: okOrIndexPanic_def bindE_def getE_def split: sum.splits)

lemma okOrIndexPanic_foldE:
  assumes "\<And>x p. length p = n \<Longrightarrow> okOrIndexPanic n (f x p)"
  shows "length p = n \<Longrightarrow> okOrIndexPanic n (foldE f xs p)"
proof (induction xs arbitrary: p)
  case Nil
  then show ?case by (simp add: okOrIndexPanic_def)
next
  case (Cons x xs)
  show ?case
    unfolding foldE.simps
    by (rule okOrIndexPanic_bindE [OF assms [OF Cons.prems] Cons.IH])
qed

lemma okOrIndexPanic_putsE: "length p = n \<Longrightarrow> okOrIndexPanic n (putsE p ws)"
  unfolding putsE_def
  by (rule okOrIndexPanic_foldE) (auto simp: okOrIndexPanic_setE)

lemma putsE_last_out_of_range:
  "i \<ge> length p \<Longrightarrow> putsE p (ws @ [(i, v)]) = Inl (Panic IndexOutOfRange)"
  using okOrIndexPanic_putsE [of p "length p" ws]
  by (auto simp: putsE_def foldE_append bindE_def okOrIndexPanic_def setE_def split: sum.splits)

lemma unpack1_panics:
  assumes "0 < w" and "w mod 8 = 7" and "int (length p) = w"
  shows "unpack1 w row p = Inl (Panic IndexOutOfRange)"
proof -
  define n where "n = nat ((w + 1) div 8)"
  have n: "int n * 8 = w + 1" "0 < n"
    using assms by (auto simp: n_def) presburger+
  then obtain m where m: "n = Suc m" by (cases n) auto
  have sd: "(w + 1) sdiv 8 = (w + 1) div 8"
    using assms by (simp add: signed_divide_int_def sgn_if)
  let ?f = "\<lambda>i p. bindE (getE row i) (\<lambda>b.
              putsE p [(i * 8 + 0, drop_bit 7 (b AND 0x80)),
                       (i * 8 + 1, drop_bit 6 (b AND 0x40)),
                       (i * 8 + 2, drop_bit 5 (b AND 0x20)),
                       (i * 8 + 3, drop_bit 4 (b AND 0x10)),
                       (i * 8 + 4, drop_bit 3 (b AND 0x08)),
                       (i * 8 + 5, drop_bit 2 (b AND 0x04)),
                       (i * 8 + 6, drop_bit 1 (b AND 0x02)),
                       (i * 8 + 7, b AND 0x01)])"
  have ok: "okOrIndexPanic (length p) (foldE ?f [0..<m] p)"
    by (rule okOrIndexPanic_foldE [OF _ refl]) (intro okOrIndexPanic_getE okOrIndexPanic_putsE)
  have last: "?f m q = Inl (Panic IndexOutOfRange)" if "length q = length p" for q
  proof -
    have "m * 8 + 7 \<ge> length q" using n m that assms(3) by simp
    then have "putsE q ([(m * 8 + 0, a0), (m * 8 + 1, a1), (m * 8 + 2, a2), (m * 8 + 3, a3),
         (m * 8 + 4, a4), (m * 8 + 5, a5), (m * 8 + 6, a6)] @ [(m * 8 + 7, a7)])
        = Inl (Panic IndexOutOfRange)" for a0 a1 a2 a3 a4 a5 a6 a7
      by (intro putsE_last_out_of_range) auto
    then show ?thesis
      by (auto simp: bindE_def getE_def)
  qed
  have "unpack1 w row p = bindE (foldE ?f [0..<m] p) (foldE ?f [m])"
    unfolding unpack1_def sd n_def [symmetric] m
    by (simp only: upt_Suc_append [OF le0] foldE_append)
  also have "\<dots> = Inl (Panic IndexOutOfRange)"
    using ok last by (auto simp: okOrIndexPanic_def bindE_def split: sum.splits)
  finally show ?thesis .
qed

lemma unpack4_panics:
  assumes "0 < w" and "odd w" and "int (length p) = w"
  shows "unpack4 w row p = Inl (Panic IndexOutOfRange)"
proof -
  define n where "n = nat ((w + 1) div 2)"
  have n: "int n * 2 = w + 1" "0 < n"
    using assms by (auto simp: n_def) presburger+
  then obtain m where m: "n = Suc m" by (cases n) auto
  have sd: "(w + 1) sdiv 2 = (w + 1) div 2"
    using assms by (simp add: signed_divide_int_def sgn_if)
  let ?f = "\<lambda>i p. bindE (getE row i) (\<lambda>b.
              putsE p [(i * 2 + 0, drop_bit 4 (b AND 0xf0)),
                       (i * 2 + 1, b AND 0xf)])"
  have ok: "okOrIndexPanic (length p) (foldE ?f [0..<m] p)"
    by (rule okOrIndexPanic_foldE [OF _ refl]) (intro okOrIndexPanic_getE okOrIndexPanic_putsE)
  have last: "?f m q = Inl (Panic IndexOutOfRange)" if "length q = length p" for q
  proof -
    have "m * 2 + 1 \<ge> length q" using n m that assms(3) by simp
    then have "putsE q ([(m * 2 + 0, a0)] @ [(m * 2 + 1, a1)])
        = Inl (Panic IndexOutOfRange)" for a0 a1
      by (intro putsE_last_out_of_range) auto
    then show ?thesis
      by (auto simp: bindE_def getE_def)
  qed
  have "unpack4 w row p = bindE (foldE ?f [0..<m] p) (foldE ?f [m])"
    unfolding unpack4_def sd n_def [symmetric] m
    by (simp only: upt_Suc_append [OF le0] foldE_append)
  also have "\<dots> = Inl (Panic IndexOutOfRange)"
    using ok last by (auto simp: okOrIndexPanic_def bindE_def split: sum.splits)
  finally show ?thesis .
qed

text \<open>
  C10. The claim is that the writes of \<open>decode1\<close> and \<open>decode4\<close> stay below \<open>w\<close> for
  every width. The code does not do that: \<open>decode1\<close> on a 1-bit bitmap of width 7 and
  \<open>decode4\<close> on a 4-bit bitmap of width 1 write \<open>p[w]\<close> and panic with an index out
  of range (\<open>unpack1_panics\<close> and \<open>unpack4_panics\<close> show it for every width that is
  7 modulo 8, and for every odd width).
\<close>

theorem decode1_decode4_write_out_of_range:
  "bmp_Decode (ex_bmp_header 7 1 1 @ ex_palette2 @ [0xAA, 0, 0, 0])
     = Inl (Panic IndexOutOfRange)
   \<and> bmp_Decode (ex_bmp_header 1 1 4 @ replicate 64 0 @ [0xAB, 0, 0, 0])
     = Inl (Panic IndexOutOfRange)"
  by (simp add: ex_eval decodeRows.simps upt_rec)

section \<open>Locating a payload\<close>

lemma mapE_first_failure:
  "i < length xs \<Longrightarrow> (\<forall>j<i. \<exists>y. f (xs ! j) = Inr y) \<Longrightarrow> f (xs ! i) = Inl e
     \<Longrightarrow> mapE f xs = Inl e"
proof (induction xs arbitrary: i)
  case Nil
  then show ?case by simp
next
  case (Cons x xs)
  show ?case
  proof (cases i)
    case 0
    with Cons.prems show ?thesis by (simp add: bindE_def)
  next
    case (Suc k)
    from Cons.prems(2) Suc obtain y where y: "f x = Inr y" by fastforce
    have "mapE f xs = Inl e"
      using Cons.prems Suc by (intro Cons.IH [of k]) auto
    with y show ?thesis by (simp add: bindE_def)
  qed
qed

lemma decodeEntry_out_of_range:
  "payloadRange v n = (lo, hi) \<Longrightarrow> \<not> (0 \<le> lo \<and> lo \<le> hi \<and> hi \<le> int (length bufr + length spare))
     \<Longrightarrow> decodeEntry png bufr spare n v = Inl (Panic SliceBoundsOutOfRange)"
  by (simp add: decodeEntry_def Let_def)

text \<open>
  When the range \<open>offset\<close> to \<open>offset+size\<close> of a directory entry does not lie
  within the capacity of the working buffer, and the entries before it were
  decoded, \<open>Decode\<close> stops with Go's slice-bounds panic at
  \<open>buf[offset : offset+size]\<close>.
\<close>

lemma Decode_out_of_capacity:
  assumes "readHeader r = Inr (h, r1)"
    and "readDirectoris r1 (sint (hdr_Count h)) = Inr (ds, bufr)"
    and "i < length ds"
    and "\<forall>j<i. \<exists>img. decodeEntry png bufr spare (length ds) (ds ! j) = Inr img"
    and "payloadRange (ds ! i) (length ds) = (lo, hi)"
    and "lo < 0 \<or> hi < lo \<or> int (length bufr + length spare) < hi"
  shows "Decode png spare r = Inl (Panic SliceBoundsOutOfRange)"
proof -
  have "decodeEntry png bufr spare (length ds) (ds ! i) = Inl (Panic SliceBoundsOutOfRange)"
    using assms(5,6) by (intro decodeEntry_out_of_range [of _ _ lo hi]) auto
  then have "mapE (decodeEntry png bufr spare (length ds)) ds = Inl (Panic SliceBoundsOutOfRange)"
    using assms(3,4) by (intro mapE_first_failure [of i]) auto
  then show ?thesis
    using assms(1,2) by (simp add: Decode_def bindE_def)
qed

lemmas container_eval = ex_truncated_def ex_container_header_def ex_payload_def
  readHeader_def header_read_def readDirectoris_def directory_at_def after_read_def
  ReadFull_def u16_at_def u32_at_def Let_def payloadRange_def

lemma ex_truncated_parse:
  "\<exists>h. readHeader ex_truncated = Inr (h, drop 6 ex_truncated) \<and> sint (hdr_Count h) = 1"
  by (simp add: container_eval)

lemma ex_truncated_dir:
  "readDirectoris (drop 6 ex_truncated) 1 = Inr ([ex_dir], take 47 ex_payload)"
  by (simp add: container_eval ex_dir_def)

lemma ex_truncated_range: "payloadRange ex_dir 1 = (0, 48)"
  by (simp add: payloadRange_def ex_dir_def)

section \<open>The order of the rows\<close>

subsection \<open>Rows of a pixel buffer\<close>

lemma length_store [simp]: "length (store pix b p) = length pix"
  by (auto simp: store_def)

lemma length_rowAt: "b + n \<le> length pix \<Longrightarrow> length (rowAt pix b n) = n"
  by (simp add: rowAt_def)

lemma rowAt_store_same:
  "b + length p \<le> length pix \<Longrightarrow> rowAt (store pix b p) b (length p) = p"
  by (simp add: rowAt_def store_def)

lemma rowAt_store_other:
  assumes "b + length p \<le> length pix" and "b' + n \<le> b \<or> b + length p \<le> b'"
  shows "rowAt (store pix b p) b' n = rowAt pix b' n"
proof -
  have s: "store pix b p = take b pix @ p @ drop (b + length p) pix"
    using assms(1) by (simp add: store_def)
  from assms(2) show ?thesis
  proof
    assume "b' + n \<le> b"
    then show ?thesis
      using assms(1) by (simp add: rowAt_def s take_drop)
  next
    assume h: "b + length p \<le> b'"
    then obtain c where c: "b' = b + length p + c"
      by (metis le_Suc_ex)
    show ?thesis
      using assms(1) by (simp add: rowAt_def s c) (simp add: add.commute add.left_commute)
  qed
qed

lemma decodeRows_step:
  assumes "decodeRows sf unpack L stride up y y1 r pix = Inr pix'" and "y \<noteq> y1"
  shows "\<exists>p. L \<le> length r \<and> sliceOK stride y pix
           \<and> unpack (take L r) (rowAt pix (nat (y * stride)) (nat stride)) = Inr p
           \<and> decodeRows sf unpack L stride up (y + (if up then 1 else - 1)) y1 (drop L r)
                (store pix (nat (y * stride)) p) = Inr pix'"
  using assms
  by (subst (asm) decodeRows.simps)
     (auto simp: ReadFull_def split: if_splits sum.splits prod.splits)

lemma decodeRows_done: "decodeRows sf unpack L stride up y y r pix = Inr pix"
  by (subst decodeRows.simps) simp

lemma storedRow_0: "L \<le> length r \<Longrightarrow> storedRow r L 0 = take L r"
  by (simp add: storedRow_def)

lemma storedRow_drop: "storedRow (drop L r) L k = storedRow r L (Suc k)"
  by (simp add: storedRow_def add.commute)

lemma decodeRows_down:
  assumes pres: "\<And>row p p'. length row = L \<Longrightarrow> length p = S \<Longrightarrow> unpack row p = Inr p'
      \<Longrightarrow> length p' = S"
  shows "decodeRows sf unpack L (int S) False (int k - 1) (- 1) r pix = Inr pix'
    \<Longrightarrow> length pix = S * H \<Longrightarrow> k \<le> H \<Longrightarrow>
     length pix' = S * H \<and> k * L \<le> length r \<and>
     (\<forall>y<k. \<exists>p'. unpack (storedRow r L (k - 1 - y)) (rowAt pix (y * S) S) = Inr p'
               \<and> rowAt pix' (y * S) S = p') \<and>
     (\<forall>y. k \<le> y \<longrightarrow> y < H \<longrightarrow> rowAt pix' (y * S) S = rowAt pix (y * S) S)"
proof (induction k arbitrary: r pix)
  case 0
  then show ?case by (simp add: decodeRows_done)
next
  case (Suc j)
  from Suc.prems(1) have ne: "int (Suc j) - 1 \<noteq> - 1" by simp
  from decodeRows_step [OF Suc.prems(1) ne] obtain p where
    L: "L \<le> length r" and ok: "sliceOK (int S) (int j) pix"
    and u: "unpack (take L r) (rowAt pix (nat (int j * int S)) (nat (int S))) = Inr p"
    and rec: "decodeRows sf unpack L (int S) False (int j - 1) (- 1) (drop L r)
                (store pix (nat (int j * int S)) p) = Inr pix'"
    by auto
  have nat1: "nat (int j * int S) = j * S" by (simp add: nat_mult_distrib)
  from ok have S: "0 < S" and fit: "j * S + S \<le> length pix"
    by (auto simp: sliceOK_def algebra_simps simp flip: of_nat_mult of_nat_add)
  have lrow: "length (rowAt pix (j * S) S) = S"
    using fit by (simp add: length_rowAt)
  from u have u': "unpack (take L r) (rowAt pix (j * S) S) = Inr p"
    by (simp add: nat1)
  have lp: "length p = S"
    using pres [OF _ lrow u'] L by simp
  have fitp: "j * S + length p \<le> length pix" using fit lp by simp
  from rec have rec': "decodeRows sf unpack L (int S) False (int j - 1) (- 1) (drop L r)
                (store pix (j * S) p) = Inr pix'"
    by (simp add: nat1)
  from Suc.prems have jH: "j \<le> H" by simp
  from Suc.IH [OF rec' _ jH] Suc.prems(2)
  have len: "length pix' = S * H" and data: "j * L \<le> length (drop L r)"
    and rows: "\<forall>y<j. \<exists>p'. unpack (storedRow (drop L r) L (j - 1 - y))
                  (rowAt (store pix (j * S) p) (y * S) S) = Inr p' \<and> rowAt pix' (y * S) S = p'"
    and rest: "\<forall>y. j \<le> y \<longrightarrow> y < H \<longrightarrow>
                  rowAt pix' (y * S) S = rowAt (store pix (j * S) p) (y * S) S"
    by auto
  have other: "rowAt (store pix (j * S) p) (y * S) S = rowAt pix (y * S) S" if "y \<noteq> j" for y
  proof (rule rowAt_store_other [OF fitp])
    from that consider "y < j" | "j < y" by linarith
    then show "y * S + S \<le> j * S \<or> j * S + length p \<le> y * S"
    proof cases
      case 1
      then have "Suc y \<le> j" by simp
      then have "Suc y * S \<le> j * S" by (rule mult_le_mono1)
      then show ?thesis by simp
    next
      case 2
      then have "Suc j \<le> y" by simp
      then have "Suc j * S \<le> y * S" by (rule mult_le_mono1)
      then show ?thesis by (simp add: lp)
    qed
  qed
  have same: "rowAt (store pix (j * S) p) (j * S) S = p"
    using rowAt_store_same [OF fitp] lp by simp
  have "\<exists>p'. unpack (storedRow r L (Suc j - 1 - y)) (rowAt pix (y * S) S) = Inr p'
               \<and> rowAt pix' (y * S) S = p'" if "y < Suc j" for y
  proof (cases "y = j")
    case True
    from Suc.prems(3) have "j < H" by simp
    with rest have "rowAt pix' (j * S) S = p" by (simp add: same)
    with u' True L show ?thesis by (simp add: storedRow_0)
  next
    case False
    with that have yj: "y < j" by simp
    then have "Suc (j - 1 - y) = Suc j - 1 - y" by simp
    with rows yj False show ?thesis
      by (metis other storedRow_drop)
  qed
  moreover have "rowAt pix' (y * S) S = rowAt pix (y * S) S" if "Suc j \<le> y" "y < H" for y
    using rest that other [of y] by simp
  moreover have "Suc j * L \<le> length r"
    using data L by simp
  ultimately show ?case using len by blast
qed


lemma decodeRows_up:
  assumes pres: "\<And>row p p'. length row = L \<Longrightarrow> length p = S \<Longrightarrow> unpack row p = Inr p'
      \<Longrightarrow> length p' = S"
  shows "decodeRows sf unpack L (int S) True (int y0) (int H) r pix = Inr pix'
    \<Longrightarrow> length pix = S * H \<Longrightarrow> y0 \<le> H \<Longrightarrow> n = H - y0 \<Longrightarrow>
     length pix' = S * H \<and> n * L \<le> length r \<and>
     (\<forall>y. y0 \<le> y \<longrightarrow> y < H \<longrightarrow>
          (\<exists>p'. unpack (storedRow r L (y - y0)) (rowAt pix (y * S) S) = Inr p'
               \<and> rowAt pix' (y * S) S = p')) \<and>
     (\<forall>y<y0. rowAt pix' (y * S) S = rowAt pix (y * S) S)"
proof (induction n arbitrary: y0 r pix)
  case 0
  then have "y0 = H" by simp
  with 0 show ?case by (simp add: decodeRows_done)
next
  case (Suc m)
  from Suc.prems have lt: "y0 < H" by simp
  then have ne: "int y0 \<noteq> int H" by simp
  from decodeRows_step [OF Suc.prems(1) ne] obtain p where
    L: "L \<le> length r" and ok: "sliceOK (int S) (int y0) pix"
    and u: "unpack (take L r) (rowAt pix (nat (int y0 * int S)) (nat (int S))) = Inr p"
    and rec: "decodeRows sf unpack L (int S) True (int y0 + 1) (int H) (drop L r)
                (store pix (nat (int y0 * int S)) p) = Inr pix'"
    by auto
  have nat1: "nat (int y0 * int S) = y0 * S" by (simp add: nat_mult_distrib)
  from ok have S: "0 < S" and fit: "y0 * S + S \<le> length pix"
    by (auto simp: sliceOK_def algebra_simps simp flip: of_nat_mult of_nat_add)
  have lrow: "length (rowAt pix (y0 * S) S) = S"
    using fit by (simp add: length_rowAt)
  from u have u': "unpack (take L r) (rowAt pix (y0 * S) S) = Inr p"
    by (simp add: nat1)
  have lp: "length p = S"
    using pres [OF _ lrow u'] L by simp
  have fitp: "y0 * S + length p \<le> length pix" using fit lp by simp
  from rec have rec': "decodeRows sf unpack L (int S) True (int (Suc y0)) (int H) (drop L r)
                (store pix (y0 * S) p) = Inr pix'"
    by (simp add: nat1 add.commute)
  have m: "m = H - Suc y0" using Suc.prems(4) by simp
  from lt have le: "Suc y0 \<le> H" by simp
  from Suc.IH [OF rec' _ le m] Suc.prems(2)
  have len: "length pix' = S * H" and data: "m * L \<le> length (drop L r)"
    and rows: "\<forall>y. Suc y0 \<le> y \<longrightarrow> y < H \<longrightarrow>
           (\<exists>p'. unpack (storedRow (drop L r) L (y - Suc y0))
                  (rowAt (store pix (y0 * S) p) (y * S) S) = Inr p' \<and> rowAt pix' (y * S) S = p')"
    and rest: "\<forall>y<Suc y0. rowAt pix' (y * S) S = rowAt (store pix (y0 * S) p) (y * S) S"
    by auto
  have other: "rowAt (store pix (y0 * S) p) (y * S) S = rowAt pix (y * S) S" if "y \<noteq> y0" for y
  proof (rule rowAt_store_other [OF fitp])
    from that consider "y < y0" | "y0 < y" by linarith
    then show "y * S + S \<le> y0 * S \<or> y0 * S + length p \<le> y * S"
    proof cases
      case 1
      then have "Suc y \<le> y0" by simp
      then have "Suc y * S \<le> y0 * S" by (rule mult_le_mono1)
      then show ?thesis by simp
    next
      case 2
      then have "Suc y0 \<le> y" by simp
      then have "Suc y0 * S \<le> y * S" by (rule mult_le_mono1)
      then show ?thesis by (simp add: lp)
    qed
  qed
  have same: "rowAt (store pix (y0 * S) p) (y0 * S) S = p"
    using rowAt_store_same [OF fitp] lp by simp
  have "\<exists>p'. unpack (storedRow r L (y - y0)) (rowAt pix (y * S) S) = Inr p'
               \<and> rowAt pix' (y * S) S = p'" if "y0 \<le> y" "y < H" for y
  proof (cases "y = y0")
    case True
    from rest have "rowAt pix' (y0 * S) S = p" by (simp add: same)
    with u' True L show ?thesis by (simp add: storedRow_0)
  next
    case False
    with that have yj: "Suc y0 \<le> y" by simp
    then have "Suc (y - Suc y0) = y - y0" by simp
    with rows yj that(2) False show ?thesis
      by (metis other storedRow_drop)
  qed
  moreover have "rowAt pix' (y * S) S = rowAt pix (y * S) S" if "y < y0" for y
    using rest that other [of y] by simp
  moreover have "Suc m * L \<le> length r"
    using data L by simp
  ultimately show ?case using len by blast
qed

lemma decodeRows_up_overshoot:
  "up \<Longrightarrow> y1 < y \<Longrightarrow> decodeRows sf unpack L stride up y y1 r pix \<noteq> Inr pix'"
proof (induction sf unpack L stride up y y1 r pix rule: decodeRows.induct)
  case (1 sf unpack L stride up y y1 r pix)
  show ?case
  proof
    assume a: "decodeRows sf unpack L stride up y y1 r pix = Inr pix'"
    from "1.prems" have ne: "y \<noteq> y1" by simp
    from decodeRows_step [OF a ne] "1.prems"(1) obtain p where
      L: "L \<le> length r" and ok: "sliceOK stride y pix"
      and u: "unpack (take L r) (rowAt pix (nat (y * stride)) (nat stride)) = Inr p"
      and rec: "decodeRows sf unpack L stride up (y + 1) y1 (drop L r)
                  (store pix (nat (y * stride)) p) = Inr pix'"
      by auto
    have rf: "ReadFull r L = Inr (take L r, drop L r)"
      using L by (simp add: ReadFull_def)
    have "decodeRows sf unpack L stride up (y + (if up then 1 else - 1)) y1 (drop L r)
            (store pix (nat (y * stride)) p) \<noteq> Inr pix'"
      using "1.prems" ne ok
      by (intro "1.IH" [OF ne _ rf refl _ u]) auto
    with rec "1.prems"(1) show False by simp
  qed
qed

subsection \<open>The inner loops keep the length of the row\<close>

lemma okOrIndexPanic_Inr: "okOrIndexPanic n res \<Longrightarrow> res = Inr p \<Longrightarrow> length p = n"
  by (simp add: okOrIndexPanic_def)

lemma unpack1_length: "length p = S \<Longrightarrow> unpack1 w row p = Inr p' \<Longrightarrow> length p' = S"
proof -
  assume l: "length p = S" and u: "unpack1 w row p = Inr p'"
  have "okOrIndexPanic S (unpack1 w row p)"
    unfolding unpack1_def
    by (rule okOrIndexPanic_foldE [OF _ l]) (intro okOrIndexPanic_getE okOrIndexPanic_putsE)
  with u show ?thesis by (simp add: okOrIndexPanic_def)
qed

lemma unpack4_length: "length p = S \<Longrightarrow> unpack4 w row p = Inr p' \<Longrightarrow> length p' = S"
proof -
  assume l: "length p = S" and u: "unpack4 w row p = Inr p'"
  have "okOrIndexPanic S (unpack4 w row p)"
    unfolding unpack4_def
    by (rule okOrIndexPanic_foldE [OF _ l]) (intro okOrIndexPanic_getE okOrIndexPanic_putsE)
  with u show ?thesis by (simp add: okOrIndexPanic_def)
qed

lemma unpack24_step_ok:
  "length p = n \<Longrightarrow> okOrIndexPanic n
     (bindE (getE row a) (\<lambda>v. bindE (setE p i0 v) (\<lambda>p.
      bindE (getE row b) (\<lambda>v. bindE (setE p i1 v) (\<lambda>p.
      bindE (getE row c) (\<lambda>v. bindE (setE p i2 v) (\<lambda>p.
      setE p i3 x)))))))"
  by (auto simp: okOrIndexPanic_def bindE_def getE_def setE_def)

lemma unpack24_length: "length p = S \<Longrightarrow> unpack24 w row p = Inr p' \<Longrightarrow> length p' = S"
proof -
  assume l: "length p = S" and u: "unpack24 w row p = Inr p'"
  have "okOrIndexPanic S (unpack24 w row p)"
    unfolding unpack24_def Let_def
    by (rule okOrIndexPanic_foldE [OF _ l]) (rule unpack24_step_ok)
  with u show ?thesis by (simp add: okOrIndexPanic_def)
qed

lemma unpack32_step_ok:
  "length p = n \<Longrightarrow> okOrIndexPanic n
     (bindE (getE p a) (\<lambda>x. bindE (getE p b) (\<lambda>y.
      bindE (setE p i0 x) (\<lambda>p. setE p i1 y))))"
  by (auto simp: okOrIndexPanic_def bindE_def getE_def setE_def)

lemma unpack32_length: "length row = S \<Longrightarrow> unpack32 w row p = Inr p' \<Longrightarrow> length p' = S"
proof -
  assume l: "length row = S" and u: "unpack32 w row p = Inr p'"
  have "okOrIndexPanic S (unpack32 w row p)"
    unfolding unpack32_def Let_def
    by (rule okOrIndexPanic_foldE [OF _ l]) (rule unpack32_step_ok)
  with u show ?thesis by (simp add: okOrIndexPanic_def)
qed

lemma unpack8_length: "length p = S \<Longrightarrow> unpack8 w row p = Inr p' \<Longrightarrow> length p' = S"
  by (auto simp: unpack8_def copy_def split: if_splits)

lemma rowAt_replicate:
  "b + n \<le> m \<Longrightarrow> rowAt (replicate m x) b n = replicate n x"
  by (simp add: rowAt_def)

text \<open>The rows of an image that decodeInto has filled.\<close>

lemma decodeInto_rows:
  assumes dec: "decodeInto sf unpack rowLen d r img = Inr img'"
    and pix: "Pix (buf img) = replicate (S * nat (Dy (Bounds (buf img)))) 0"
    and str: "Stride (buf img) = int S"
    and dy: "Dy (Bounds (buf img)) = \<bar>cfg_Height (config d)\<bar>"
    and opp: "cfg_Height (config d) < 0 \<longrightarrow> isOpposite d"
    and pres: "\<And>row p p'. length row = nat rowLen \<Longrightarrow> length p = S \<Longrightarrow> unpack row p = Inr p'
      \<Longrightarrow> length p' = S"
  shows "0 \<le> cfg_Height (config d) \<and> img' = withPix img (Pix (buf img'))
    \<and> length (Pix (buf img')) = S * nat (cfg_Height (config d))
    \<and> nat (cfg_Height (config d)) * nat rowLen \<le> length r
    \<and> (\<forall>y < nat (cfg_Height (config d)). \<exists>p.
          unpack (storedRow r (nat rowLen)
                    (if isOpposite d then y else nat (cfg_Height (config d)) - 1 - y))
                 (replicate S 0) = Inr p
          \<and> rowAt (Pix (buf img')) (y * S) S = p)"
proof -
  define h where "h = cfg_Height (config d)"
  define H where "H = nat h"
  define pix0 where "pix0 = Pix (buf img)"
  obtain y0 y1 up where ro: "rowOrder d = (y0, y1, up)" by (cases "rowOrder d") auto
  from dec ro obtain pix' where
    rows: "decodeRows sf unpack (nat rowLen) (int S) up y0 y1 r pix0 = Inr pix'"
    and img': "img' = withPix img pix'"
    by (auto simp: decodeInto_def bindE_def str pix0_def split: if_splits sum.splits)
  have h0: "0 \<le> h"
  proof (rule ccontr)
    assume "\<not> 0 \<le> h"
    then have neg: "h < 0" by simp
    with opp have "isOpposite d" by (simp add: h_def)
    with ro have "y0 = 0" "y1 = h" "up"
      by (auto simp: rowOrder_def Let_def h_def)
    with decodeRows_up_overshoot [of up y1 y0 sf unpack "nat rowLen" "int S" r pix0 pix'] neg rows
    show False by simp
  qed
  have lp: "length pix0 = S * H"
    using pix dy h0 by (simp add: pix0_def H_def h_def)
  have hH: "h = int H" using h0 by (simp add: H_def)
  have r0: "rowAt pix0 (y * S) S = replicate S 0" if "y < H" for y
  proof -
    from that have "Suc y \<le> H" by simp
    then have "Suc y * S \<le> H * S" by (rule mult_le_mono1)
    then have "y * S + S \<le> S * H" by (simp add: mult.commute)
    then show ?thesis
      using pix dy h0 by (simp add: pix0_def rowAt_replicate H_def h_def)
  qed
  have main: "length pix' = S * H \<and> H * nat rowLen \<le> length r \<and>
     (\<forall>y<H. \<exists>p. unpack (storedRow r (nat rowLen) (if isOpposite d then y else H - 1 - y))
                 (replicate S 0) = Inr p \<and> rowAt pix' (y * S) S = p)"
  proof (cases "isOpposite d")
    case True
    with ro have "y0 = int 0" "y1 = int H" "up"
      by (auto simp: rowOrder_def Let_def h_def [symmetric] hH)
    with rows have "decodeRows sf unpack (nat rowLen) (int S) True (int 0) (int H) r pix0 = Inr pix'"
      by simp
    from decodeRows_up [OF pres this lp _ refl] True r0 show ?thesis
      by simp
  next
    case False
    with ro have "y0 = int H - 1" "y1 = - 1" "\<not> up"
      by (auto simp: rowOrder_def Let_def h_def [symmetric] hH)
    with rows have "decodeRows sf unpack (nat rowLen) (int S) False (int H - 1) (- 1) r pix0 = Inr pix'"
      by simp
    from decodeRows_down [OF pres this lp order_refl] False r0 show ?thesis
      by simp
  qed
  have b: "Pix (buf img') = pix'"
    using img' by (cases img) auto
  show ?thesis
    using main h0 img' unfolding b H_def h_def by simp
qed

subsection \<open>What \<open>newDecoder\<close> returns\<close>

lemma sint_neg_32:
  "sint (- h :: 32 word) = (if sint h = - (2 ^ 31) then - (2 ^ 31) else - sint h)"
proof -
  have b: "- (2 ^ 31) \<le> sint h" "sint h < 2 ^ 31"
    using sint_ge [of h] sint_lt [of h] by simp_all
  have "sint (- h) = signed_take_bit 31 (- sint h)"
    by (simp add: sint_word_ariths)
  also have "\<dots> = (if sint h = - (2 ^ 31) then - (2 ^ 31) else - sint h)"
  proof (cases "sint h = - (2 ^ 31)")
    case True
    then show ?thesis by (simp add: signed_take_bit_eq_take_bit_minus take_bit_eq_mod)
  next
    case False
    with b have "- (2 ^ 31) \<le> - sint h" "- sint h < 2 ^ 31" by simp_all
    then have "signed_take_bit 31 (- sint h) = - sint h"
      by (intro signed_take_bit_int_eq_self) simp_all
    with False show ?thesis by simp
  qed
  finally show ?thesis .
qed

lemma newDecoder_Inr:
  assumes "newDecoder r = Inr (d, r3)"
  shows "\<exists>fh ih r1 r2.
     readFileHeader r = Inr (fh, r1) \<and> ReadInfoHeader r1 = Inr (ih, r2)
     \<and> supportedSize (ih_Size ih) \<and> ih_Compression ih = 0
     \<and> bpp d = uint (ih_BitCount ih)
     \<and> isOpposite d = (sint (ih_Height ih) < 0)
     \<and> cfg_Width (config d) = sint (ih_Width ih)
     \<and> cfg_Height (config d)
         = (if sint (ih_Height ih) < 0 then sint (- ih_Height ih) else sint (ih_Height ih))
     \<and> (if indexedDepth (ih_BitCount ih)
         then \<exists>clrs. ReadFull r2 (unat (if ih_ColorUsed ih = 0
                                            then push_bit (unat (ih_BitCount ih)) 1
                                            else ih_ColorUsed ih) * 4) = Inr (clrs, r3)
               \<and> cfg_ColorModel (config d)
                   = Palette (map (\<lambda>i. colorBGR_RGBA clrs (4 * i))
                       [0..<unat (if ih_ColorUsed ih = 0
                                  then push_bit (unat (ih_BitCount ih)) 1
                                  else ih_ColorUsed ih)])
         else directDepth (ih_BitCount ih)
              \<and> cfg_ColorModel (config d) = RGBAModel \<and> r3 = r2)"
proof -
  from assms obtain fh r1 where fh: "readFileHeader r = Inr (fh, r1)"
    by (cases "readFileHeader r") (auto simp: newDecoder_def bindE_def)
  with assms obtain ih r2 where ih: "ReadInfoHeader r1 = Inr (ih, r2)"
    by (cases "ReadInfoHeader r1") (auto simp: newDecoder_def bindE_def)
  from assms fh ih have sz: "supportedSize (ih_Size ih)"
    by (auto simp: newDecoder_def bindE_def split: if_splits)
  from assms fh ih sz have cp: "ih_Compression ih = 0"
    by (auto simp: newDecoder_def bindE_def Let_def split: if_splits prod.splits)
  show ?thesis
  proof (cases "indexedDepth (ih_BitCount ih)")
    case True
    with assms fh ih sz cp show ?thesis
      by (cases "sint (ih_Height ih) < 0"; cases "ReadFull r2 (unat (if ih_ColorUsed ih = 0
                                            then push_bit (unat (ih_BitCount ih)) 1
                                            else ih_ColorUsed ih) * 4)")
         (auto simp: newDecoder_def bindE_def Let_def)
  next
    case False
    with assms fh ih sz cp show ?thesis
      by (cases "sint (ih_Height ih) < 0"; cases "directDepth (ih_BitCount ih)")
         (auto simp: newDecoder_def bindE_def Let_def)
  qed
qed

lemma ReadInfoHeader_valid:
  "ReadInfoHeader r = Inr (ih, r') \<Longrightarrow> 0 < sint (ih_Width ih) \<and> ih_Height ih \<noteq> 0"
  by (auto simp: ReadInfoHeader_def Let_def split: sum.splits prod.splits if_splits)

lemma Rect_pos:
  "0 \<le> w \<Longrightarrow> 0 \<le> h \<Longrightarrow> Rect 0 0 w h = \<lparr>MinX = 0, MinY = 0, MaxX = w, MaxY = h\<rparr>"
  by (simp add: Rect_def)

lemma Dy_Rect: "Dy (Rect 0 0 w h) = \<bar>h\<bar>"
  by (simp add: Rect_def Dy_def)

lemma Dx_Rect: "Dx (Rect 0 0 w h) = \<bar>w\<bar>"
  by (simp add: Rect_def Dx_def)

lemma newBuf_facts:
  assumes "0 < w" and "0 < n"
  shows "Pix (newBuf n (Rect 0 0 w h)) = replicate (nat (n * w) * nat (Dy (Rect 0 0 w h))) 0"
    and "Stride (newBuf n (Rect 0 0 w h)) = int (nat (n * w))"
    and "Bounds (newBuf n (Rect 0 0 w h)) = Rect 0 0 w h"
  using assms by (simp_all add: newBuf_def Dx_Rect Dy_Rect nat_mult_distrib mult.assoc)

text \<open>What a successful decode says about the rows, for an image made by one of the
  constructors, in terms of the decoder.\<close>

lemma decode_rows:
  assumes nd: "newDecoder r = Inr (d, r3)" and dec: "decode d r3 = Inr img"
  shows "0 < cfg_Height (config d)
    \<and> Bounds (buf img) = \<lparr>MinX = 0, MinY = 0, MaxX = cfg_Width (config d),
                            MaxY = cfg_Height (config d)\<rparr>
    \<and> Stride (buf img) = (if bpp d = 24 \<or> bpp d = 32 then 4 else 1) * cfg_Width (config d)
    \<and> length (Pix (buf img)) = nat (Stride (buf img)) * nat (cfg_Height (config d))
    \<and> nat (cfg_Height (config d)) * rowLength d \<le> length r3
    \<and> (\<forall>y < nat (cfg_Height (config d)). \<exists>p.
          rowUnpack d (storedRow r3 (rowLength d)
                    (if isOpposite d then y else nat (cfg_Height (config d)) - 1 - y))
                 (replicate (nat (Stride (buf img))) 0) = Inr p
          \<and> imageRow img y = p)"
proof -
  define w where "w = cfg_Width (config d)"
  define h where "h = cfg_Height (config d)"
  from newDecoder_Inr [OF nd] obtain fh ih r1 r2 where
    ri: "ReadInfoHeader r1 = Inr (ih, r2)"
    and opp: "isOpposite d = (sint (ih_Height ih) < 0)"
    and wd: "w = sint (ih_Width ih)"
    and ht: "h = (if sint (ih_Height ih) < 0 then sint (- ih_Height ih)
                  else sint (ih_Height ih))"
    unfolding w_def h_def by blast
  from ReadInfoHeader_valid [OF ri] have w0: "0 < w" and hn: "ih_Height ih \<noteq> 0"
    by (simp_all add: wd)
  from hn have hn': "sint (ih_Height ih) \<noteq> 0"
    by (metis sint_0 signed_eq_0_iff)
  have oh: "h < 0 \<longrightarrow> isOpposite d"
    using ht opp by auto
  have h_ne: "h \<noteq> 0"
    using ht hn' by (auto simp: sint_neg_32 split: if_splits)
  have key: "0 \<le> h \<and> img = withPix (mk (newBuf n (Rect 0 0 w h))) (Pix (buf img))
      \<and> length (Pix (buf img)) = nat (n * w) * nat h
      \<and> nat h * nat rowLen \<le> length r3
      \<and> (\<forall>y < nat h. \<exists>p.
            unpack (storedRow r3 (nat rowLen) (if isOpposite d then y else nat h - 1 - y))
                 (replicate (nat (n * w)) 0) = Inr p
            \<and> rowAt (Pix (buf img)) (y * nat (n * w)) (nat (n * w)) = p)"
    if di: "decodeInto sf unpack rowLen d r3 (mk (newBuf n (Rect 0 0 w h))) = Inr img"
      and mk: "\<And>b. buf (mk b) = b" and n: "0 < n"
      and pres: "\<forall>row p p'. length row = nat rowLen \<longrightarrow> length p = nat (n * w)
            \<longrightarrow> unpack row p = Inr p' \<longrightarrow> length p' = nat (n * w)"
    for sf unpack rowLen mk n
  proof -
    have 1: "Pix (buf (mk (newBuf n (Rect 0 0 w h))))
        = replicate (nat (n * w) * nat (Dy (Bounds (buf (mk (newBuf n (Rect 0 0 w h))))))) 0"
      using newBuf_facts [OF w0 n] by (simp add: mk)
    have 2: "Stride (buf (mk (newBuf n (Rect 0 0 w h)))) = int (nat (n * w))"
      using newBuf_facts [OF w0 n] by (simp add: mk)
    have 3: "Dy (Bounds (buf (mk (newBuf n (Rect 0 0 w h))))) = \<bar>cfg_Height (config d)\<bar>"
      using newBuf_facts [OF w0 n] by (simp add: mk Dy_Rect h_def)
    show ?thesis
      unfolding h_def
    proof (rule decodeInto_rows [OF di [unfolded h_def] 1 [unfolded h_def] 2 [unfolded h_def]
                3 [unfolded h_def]])
      show "cfg_Height (config d) < 0 \<longrightarrow> isOpposite d"
        using oh by (simp add: h_def)
    next
      fix row p p'
      assume "length row = nat rowLen" "length p = nat (n * w)" "unpack row p = Inr p'"
      then show "length p' = nat (n * w)" using pres by blast
    qed
  qed
  have fin: ?thesis
    if k: "0 \<le> h \<and> img = withPix (mk (newBuf n (Rect 0 0 w h))) (Pix (buf img))
      \<and> length (Pix (buf img)) = nat (n * w) * nat h
      \<and> nat h * nat rowLen \<le> length r3
      \<and> (\<forall>y < nat h. \<exists>p.
            unpack (storedRow r3 (nat rowLen) (if isOpposite d then y else nat h - 1 - y))
                 (replicate (nat (n * w)) 0) = Inr p
            \<and> rowAt (Pix (buf img)) (y * nat (n * w)) (nat (n * w)) = p)"
      and ru: "rowUnpack d = unpack" and rl: "rowLength d = nat rowLen"
      and mk: "\<And>b px. buf (withPix (mk b) px) = b\<lparr>Pix := px\<rparr>" and n: "0 < n"
      and nn: "n = (if bpp d = 24 \<or> bpp d = 32 then 4 else 1)"
    for mk n unpack rowLen
  proof -
    from k h_ne have hp: "0 < h" by simp
    from k have "buf img = (newBuf n (Rect 0 0 w h))\<lparr>Pix := Pix (buf img)\<rparr>"
      by (metis mk)
    then have b: "Bounds (buf img) = Rect 0 0 w h" and s: "Stride (buf img) = n * w"
      using newBuf_facts [OF w0 n, of h] w0 n by (metis pixbuf.select_convs(2,3) pixbuf.surjective pixbuf.update_convs(1) nat_0_le mult_pos_pos less_imp_le)+
    have st: "nat (n * w) = nat (Stride (buf img))" using s by simp
    have b': "Bounds (buf img) = \<lparr>MinX = 0, MinY = 0, MaxX = w, MaxY = h\<rparr>"
      using b Rect_pos [of w h] w0 hp by simp
    have s': "Stride (buf img) = (if bpp d = 24 \<or> bpp d = 32 then 4 else 1) * w"
      using s nn by simp
    note k' = k [unfolded st, folded rl ru]
    from k' have c4: "length (Pix (buf img)) = nat (Stride (buf img)) * nat h"
      and c5: "nat h * rowLength d \<le> length r3"
      and c6: "\<forall>y<nat h. \<exists>p. rowUnpack d (storedRow r3 (rowLength d)
                   (if isOpposite d then y else nat h - 1 - y))
                 (replicate (nat (Stride (buf img))) 0) = Inr p
            \<and> rowAt (Pix (buf img)) (y * nat (Stride (buf img))) (nat (Stride (buf img))) = p"
      by blast+
    show ?thesis
      unfolding imageRow_def w_def [symmetric] h_def [symmetric]
      using hp b' s' c4 c5 c6 by blast
  qed
  from dec have cases: "bpp d = 1 \<or> bpp d = 4 \<or> bpp d = 8 \<or> bpp d = 24 \<or> bpp d = 32"
    by (auto simp: decode_def split: if_splits)
  then show ?thesis
  proof (elim disjE)
    assume b: "bpp d = 1"
    with dec obtain pal where
      di: "decodeInto False (unpack1 w) ((w * bpp d + 31) sdiv 32 * 4) d r3
             (Paletted (newBuf 1 (Rect 0 0 w h)) pal) = Inr img"
      by (auto simp: decode_def decode1_def Let_def NewPaletted_def w_def h_def
          split: color_model.splits)
    have ru: "rowUnpack d = unpack1 w"
      by (simp add: rowUnpack_def Let_def b w_def)
    have rl: "rowLength d = nat ((w * bpp d + 31) sdiv 32 * 4)"
      by (simp add: rowLength_def Let_def b w_def)
    have n0: "0 < (1::int)" by simp
    have nn: "(1::int) = (if bpp d = 24 \<or> bpp d = 32 then 4 else 1)" by (simp add: b)
    have m1: "\<And>pb. buf ((\<lambda>b. Paletted b pal) pb) = pb" by simp
    have m2: "\<And>pb px. buf (withPix ((\<lambda>b. Paletted b pal) pb) px) = pb\<lparr>Pix := px\<rparr>" by simp
    have pres: "\<forall>row p p'. length row = nat ((w * bpp d + 31) sdiv 32 * 4) \<longrightarrow> length p = nat (1 * w)
        \<longrightarrow> unpack1 w row p = Inr p' \<longrightarrow> length p' = nat (1 * w)"
      using unpack1_length by blast
    note k = key [of False "unpack1 w" "(w * bpp d + 31) sdiv 32 * 4" "\<lambda>b. Paletted b pal" 1, OF di m1 n0 pres]
    show ?thesis
      by (rule fin [OF k ru rl m2 n0 nn])
  next
    assume b: "bpp d = 4"
    with dec obtain pal where
      di: "decodeInto False (unpack4 w) ((w * bpp d + 31) sdiv 32 * 4) d r3
             (Paletted (newBuf 1 (Rect 0 0 w h)) pal) = Inr img"
      by (auto simp: decode_def decode4_def Let_def NewPaletted_def w_def h_def
          split: color_model.splits)
    have ru: "rowUnpack d = unpack4 w"
      by (simp add: rowUnpack_def Let_def b w_def)
    have rl: "rowLength d = nat ((w * bpp d + 31) sdiv 32 * 4)"
      by (simp add: rowLength_def Let_def b w_def)
    have n0: "0 < (1::int)" by simp
    have nn: "(1::int) = (if bpp d = 24 \<or> bpp d = 32 then 4 else 1)" by (simp add: b)
    have m1: "\<And>pb. buf ((\<lambda>b. Paletted b pal) pb) = pb" by simp
    have m2: "\<And>pb px. buf (withPix ((\<lambda>b. Paletted b pal) pb) px) = pb\<lparr>Pix := px\<rparr>" by simp
    have pres: "\<forall>row p p'. length row = nat ((w * bpp d + 31) sdiv 32 * 4) \<longrightarrow> length p = nat (1 * w)
        \<longrightarrow> unpack4 w row p = Inr p' \<longrightarrow> length p' = nat (1 * w)"
      using unpack4_length by blast
    note k = key [of False "unpack4 w" "(w * bpp d + 31) sdiv 32 * 4" "\<lambda>b. Paletted b pal" 1, OF di m1 n0 pres]
    show ?thesis
      by (rule fin [OF k ru rl m2 n0 nn])
  next
    assume b: "bpp d = 8"
    with dec obtain pal where
      di: "decodeInto False (unpack8 w) ((w * bpp d + 31) sdiv 32 * 4) d r3
             (Paletted (newBuf 1 (Rect 0 0 w h)) pal) = Inr img"
      by (auto simp: decode_def decode8_def Let_def NewPaletted_def w_def h_def
          split: color_model.splits)
    have ru: "rowUnpack d = unpack8 w"
      by (simp add: rowUnpack_def Let_def b w_def)
    have rl: "rowLength d = nat ((w * bpp d + 31) sdiv 32 * 4)"
      by (simp add: rowLength_def Let_def b w_def)
    have n0: "0 < (1::int)" by simp
    have nn: "(1::int) = (if bpp d = 24 \<or> bpp d = 32 then 4 else 1)" by (simp add: b)
    have m1: "\<And>pb. buf ((\<lambda>b. Paletted b pal) pb) = pb" by simp
    have m2: "\<And>pb px. buf (withPix ((\<lambda>b. Paletted b pal) pb) px) = pb\<lparr>Pix := px\<rparr>" by simp
    have pres: "\<forall>row p p'. length row = nat ((w * bpp d + 31) sdiv 32 * 4) \<longrightarrow> length p = nat (1 * w)
        \<longrightarrow> unpack8 w row p = Inr p' \<longrightarrow> length p' = nat (1 * w)"
      using unpack8_length by blast
    note k = key [of False "unpack8 w" "(w * bpp d + 31) sdiv 32 * 4" "\<lambda>b. Paletted b pal" 1, OF di m1 n0 pres]
    show ?thesis
      by (rule fin [OF k ru rl m2 n0 nn])
  next
    assume b: "bpp d = 24"
    with dec have
      di: "decodeInto False (unpack24 w) ((w * 3 + 3) AND NOT 3) d r3
             (ImageRGBA (newBuf 4 (Rect 0 0 w h))) = Inr img"
      by (auto simp: decode_def decode24_def Let_def NewRGBA_def w_def h_def)
    have ru: "rowUnpack d = unpack24 w"
      by (simp add: rowUnpack_def Let_def b w_def)
    have rl: "rowLength d = nat ((w * 3 + 3) AND NOT 3)"
      by (simp add: rowLength_def Let_def b w_def)
    have n0: "0 < (4::int)" by simp
    have nn: "(4::int) = (if bpp d = 24 \<or> bpp d = 32 then 4 else 1)" by (simp add: b)
    have m1: "\<And>pb. buf ((\<lambda>b. ImageRGBA b) pb) = pb" by simp
    have m2: "\<And>pb px. buf (withPix ((\<lambda>b. ImageRGBA b) pb) px) = pb\<lparr>Pix := px\<rparr>" by simp
    have pres: "\<forall>row p p'. length row = nat ((w * 3 + 3) AND NOT 3) \<longrightarrow> length p = nat (4 * w)
        \<longrightarrow> unpack24 w row p = Inr p' \<longrightarrow> length p' = nat (4 * w)"
      using unpack24_length by blast
    note k = key [of False "unpack24 w" "(w * 3 + 3) AND NOT 3" "\<lambda>b. ImageRGBA b" 4, OF di m1 n0 pres]
    show ?thesis
      by (rule fin [OF k ru rl m2 n0 nn])
  next
    assume b: "bpp d = 32"
    with dec have
      di: "decodeInto True (unpack32 w) (4 * w) d r3
             (ImageNRGBA (newBuf 4 (Rect 0 0 w h))) = Inr img"
      using w0
      by (auto simp: decode_def decode32_def Let_def NewNRGBA_def w_def h_def newBuf_def Dx_Rect)
    have ru: "rowUnpack d = unpack32 w"
      by (simp add: rowUnpack_def Let_def b w_def)
    have rl: "rowLength d = nat (4 * w)"
      by (simp add: rowLength_def Let_def b w_def)
    have n0: "0 < (4::int)" by simp
    have nn: "(4::int) = (if bpp d = 24 \<or> bpp d = 32 then 4 else 1)" by (simp add: b)
    have m1: "\<And>pb. buf ((\<lambda>b. ImageNRGBA b) pb) = pb" by simp
    have m2: "\<And>pb px. buf (withPix ((\<lambda>b. ImageNRGBA b) pb) px) = pb\<lparr>Pix := px\<rparr>" by simp
    have pres: "\<forall>row p p'. length row = nat (4 * w) \<longrightarrow> length p = nat (4 * w)
        \<longrightarrow> unpack32 w row p = Inr p' \<longrightarrow> length p' = nat (4 * w)"
      using unpack32_length by blast
    note k = key [of True "unpack32 w" "4 * w" "\<lambda>b. ImageNRGBA b" 4, OF di m1 n0 pres]
    show ?thesis
      by (rule fin [OF k ru rl m2 n0 nn])
  qed
qed

text \<open>
  C6. For every stream that \<open>bmp.Decode\<close> accepts, with \<open>H\<close> the absolute value of
  the header's height: the decoder's height and the image's bounds use \<open>H\<close>; row \<open>y\<close>
  of the image (from the top) is what the inner loop makes of stored row \<open>H - 1 - y\<close>
  when the header's height is positive (the first stored row is the bottom row), and
  of stored row \<open>y\<close> when it is negative.
\<close>

theorem bmp_Decode_row_order:
  assumes "bmp_Decode r = Inr img"
  shows "\<exists>fh ih r1 r2 d r3.
     readFileHeader r = Inr (fh, r1) \<and> ReadInfoHeader r1 = Inr (ih, r2)
     \<and> newDecoder r = Inr (d, r3)
     \<and> isOpposite d = (sint (ih_Height ih) < 0)
     \<and> cfg_Height (config d) = \<bar>sint (ih_Height ih)\<bar>
     \<and> Bounds (buf img) = \<lparr>MinX = 0, MinY = 0, MaxX = sint (ih_Width ih),
                              MaxY = \<bar>sint (ih_Height ih)\<bar>\<rparr>
     \<and> nat \<bar>sint (ih_Height ih)\<bar> * rowLength d \<le> length r3
     \<and> (\<forall>y < nat \<bar>sint (ih_Height ih)\<bar>. \<exists>p.
           rowUnpack d
             (storedRow r3 (rowLength d)
                (if sint (ih_Height ih) < 0 then y else nat \<bar>sint (ih_Height ih)\<bar> - 1 - y))
             (replicate (nat (Stride (buf img))) 0) = Inr p
           \<and> imageRow img y = p)"
proof -
  from assms obtain d r3 where nd: "newDecoder r = Inr (d, r3)" and dec: "decode d r3 = Inr img"
    by (auto simp: bmp_Decode_def bindE_def split: sum.splits)
  from newDecoder_Inr [OF nd] obtain fh ih r1 r2 where
    fh: "readFileHeader r = Inr (fh, r1)" and ri: "ReadInfoHeader r1 = Inr (ih, r2)"
    and opp: "isOpposite d = (sint (ih_Height ih) < 0)"
    and wd: "cfg_Width (config d) = sint (ih_Width ih)"
    and ht: "cfg_Height (config d)
         = (if sint (ih_Height ih) < 0 then sint (- ih_Height ih) else sint (ih_Height ih))"
    by blast
  note rows = decode_rows [OF nd dec]
  from rows have hp: "0 < cfg_Height (config d)" by blast
  have habs: "cfg_Height (config d) = \<bar>sint (ih_Height ih)\<bar>"
    using ht hp by (auto simp: sint_neg_32 split: if_splits)
  from rows have
    b: "Bounds (buf img) = \<lparr>MinX = 0, MinY = 0, MaxX = cfg_Width (config d),
                            MaxY = cfg_Height (config d)\<rparr>"
    and c5: "nat (cfg_Height (config d)) * rowLength d \<le> length r3"
    and c6: "\<forall>y < nat (cfg_Height (config d)). \<exists>p.
          rowUnpack d (storedRow r3 (rowLength d)
                    (if isOpposite d then y else nat (cfg_Height (config d)) - 1 - y))
                 (replicate (nat (Stride (buf img))) 0) = Inr p
          \<and> imageRow img y = p"
    by blast+
  show ?thesis
    using fh ri nd opp habs b [unfolded wd habs] c5 [unfolded habs] c6 [unfolded habs opp]
    by blast
qed

lemma replicate_16: "replicate 16 x = [x,x,x,x,x,x,x,x,x,x,x,x,x,x,x,x]" by (simp add: eval_nat_numeral)

lemma ex_bottom_up_decoded:
  "bmp_Decode ex_bottom_up
     = Inr (ImageRGBA \<lparr>Pix = [9, 8, 7, 255,  12, 11, 10, 255,   3, 2, 1, 255,  6, 5, 4, 255],
                      Stride = 8,
                      Bounds = \<lparr>MinX = 0, MinY = 0, MaxX = 2, MaxY = 2\<rparr>\<rparr>)"
  by (simp add: ex_bottom_up_def ex_rows24_def ex_eval decodeRows.simps upt_rec replicate_16)

lemma ex_top_down_decoded:
  "bmp_Decode ex_top_down
     = Inr (ImageRGBA \<lparr>Pix = [3, 2, 1, 255,  6, 5, 4, 255,   9, 8, 7, 255,  12, 11, 10, 255],
                      Stride = 8,
                      Bounds = \<lparr>MinX = 0, MinY = 0, MaxX = 2, MaxY = 2\<rparr>\<rparr>)"
  by (simp add: ex_top_down_def ex_rows24_def ex_eval decodeRows.simps upt_rec replicate_16)

theorem bmp_Decode_row_order_example:
  "bmp_Decode ex_bottom_up
     = Inr (ImageRGBA \<lparr>Pix = [9, 8, 7, 255,  12, 11, 10, 255,   3, 2, 1, 255,  6, 5, 4, 255],
                      Stride = 8,
                      Bounds = \<lparr>MinX = 0, MinY = 0, MaxX = 2, MaxY = 2\<rparr>\<rparr>)
   \<and> (\<exists>d r3. newDecoder ex_bottom_up = Inr (d, r3) \<and> \<not> isOpposite d
          \<and> cfg_Height (config d) = 2)
   \<and> bmp_Decode ex_top_down
     = Inr (ImageRGBA \<lparr>Pix = [3, 2, 1, 255,  6, 5, 4, 255,   9, 8, 7, 255,  12, 11, 10, 255],
                      Stride = 8,
                      Bounds = \<lparr>MinX = 0, MinY = 0, MaxX = 2, MaxY = 2\<rparr>\<rparr>)
   \<and> (\<exists>d r3. newDecoder ex_top_down = Inr (d, r3) \<and> isOpposite d
          \<and> cfg_Height (config d) = 2)"
proof -
  from bmp_Decode_row_order [OF ex_bottom_up_decoded] obtain fh ih r1 r2 d r3 where
    a: "readFileHeader ex_bottom_up = Inr (fh, r1)" "ReadInfoHeader r1 = Inr (ih, r2)"
      "newDecoder ex_bottom_up = Inr (d, r3)" "isOpposite d = (sint (ih_Height ih) < 0)"
      "cfg_Height (config d) = \<bar>sint (ih_Height ih)\<bar>"
    by blast
  from a(1) have "r1 = drop 14 ex_bottom_up"
    by (simp add: ex_bottom_up_def ex_rows24_def ex_eval)
  with a(2) have "ih_Height ih = 2"
    by (auto simp: ex_bottom_up_def ex_rows24_def ex_eval)
  with a have up: "\<exists>d r3. newDecoder ex_bottom_up = Inr (d, r3) \<and> \<not> isOpposite d
          \<and> cfg_Height (config d) = 2"
    by auto
  from bmp_Decode_row_order [OF ex_top_down_decoded] obtain fh' ih' r1' r2' d' r3' where
    b: "readFileHeader ex_top_down = Inr (fh', r1')" "ReadInfoHeader r1' = Inr (ih', r2')"
      "newDecoder ex_top_down = Inr (d', r3')" "isOpposite d' = (sint (ih_Height ih') < 0)"
      "cfg_Height (config d') = \<bar>sint (ih_Height ih')\<bar>"
    by blast
  from b(1) have "r1' = drop 14 ex_top_down"
    by (simp add: ex_top_down_def ex_rows24_def ex_eval)
  with b(2) have "ih_Height ih' = - 2"
    by (auto simp: ex_top_down_def ex_rows24_def ex_eval)
  with b have down: "\<exists>d r3. newDecoder ex_top_down = Inr (d, r3) \<and> isOpposite d
          \<and> cfg_Height (config d) = 2"
    by auto
  from up down ex_bottom_up_decoded ex_top_down_decoded show ?thesis by blast
qed

section \<open>The composite image\<close>

subsection \<open>Drawing through the mask\<close>

lemma foldE_map: "foldE f (map h xs) s = foldE (\<lambda>x. f (h x)) xs s"
  by (induction xs arbitrary: s) (auto simp: bindE_def split: sum.splits)

lemma foldE_nested:
  "foldE (\<lambda>y. foldE (f y) xs) ys s = foldE (\<lambda>(y, x). f y x) (List.product ys xs) s"
proof (induction ys arbitrary: s)
  case Nil
  then show ?case by simp
next
  case (Cons y ys)
  have "foldE (\<lambda>(y, x). f y x) (map (Pair y) xs) s = foldE (f y) xs s" for s
    by (simp add: foldE_map)
  with Cons show ?case
    by (simp add: foldE_append bindE_def split: sum.splits)
qed

lemma put4_Inr:
  "put4 pix i a b c d = Inr pix' \<Longrightarrow>
     0 \<le> i \<and> i + 4 \<le> int (length pix) \<and> length pix' = length pix
     \<and> get4 pix' i = Inr (a, b, c, d)
     \<and> (\<forall>j. 0 \<le> j \<longrightarrow> (j < i \<or> i + 4 \<le> j) \<longrightarrow> pix' ! nat j = pix ! nat j)"
  by (auto simp: put4_def get4_def nat_add_distrib split: if_splits)

lemma get4_cong:
  "length pix' = length pix \<Longrightarrow> (\<forall>j. i \<le> j \<and> j < i + 4 \<longrightarrow> pix' ! nat j = pix ! nat j)
     \<Longrightarrow> get4 pix' i = get4 pix i"
  by (auto simp: get4_def)

lemma foldE_cells:
  fixes off :: "'k \<Rightarrow> int" and g :: "'k \<Rightarrow> error + (byte \<times> byte \<times> byte \<times> byte)"
  assumes step: "\<And>k pix. step k pix = bindE (g k) (\<lambda>(a, b, c, d). put4 pix (off k) a b c d)"
  shows "foldE step ks pix = Inr pix'
    \<Longrightarrow> (\<forall>k\<in>set ks. \<forall>k'\<in>set ks. k \<noteq> k' \<longrightarrow> off k + 4 \<le> off k' \<or> off k' + 4 \<le> off k)
    \<Longrightarrow> distinct ks
    \<Longrightarrow> length pix' = length pix
       \<and> (\<forall>k\<in>set ks. \<exists>v. g k = Inr v \<and> get4 pix' (off k) = Inr v)
       \<and> (\<forall>j. 0 \<le> j \<longrightarrow> (\<forall>k\<in>set ks. j < off k \<or> off k + 4 \<le> j)
              \<longrightarrow> pix' ! nat j = pix ! nat j)"
proof (induction ks arbitrary: pix)
  case Nil
  then show ?case by simp
next
  case (Cons k ks)
  from Cons.prems(1) obtain pix1 where s1: "step k pix = Inr pix1"
    and rest: "foldE step ks pix1 = Inr pix'"
    by (auto simp: bindE_def split: sum.splits)
  from s1 obtain a b c d where g: "g k = Inr (a, b, c, d)"
    and p: "put4 pix (off k) a b c d = Inr pix1"
    by (auto simp: step bindE_def split: sum.splits)
  note p4 = put4_Inr [OF p]
  from Cons.prems(2) have dis: "\<forall>k\<in>set ks. \<forall>k'\<in>set ks. k \<noteq> k'
      \<longrightarrow> off k + 4 \<le> off k' \<or> off k' + 4 \<le> off k"
    by simp
  from Cons.prems(3) have dk: "distinct ks" and kn: "k \<notin> set ks" by simp_all
  from Cons.IH [OF rest dis dk]
  have len: "length pix' = length pix1"
    and cells: "\<forall>k\<in>set ks. \<exists>v. g k = Inr v \<and> get4 pix' (off k) = Inr v"
    and same: "\<forall>j. 0 \<le> j \<longrightarrow> (\<forall>k\<in>set ks. j < off k \<or> off k + 4 \<le> j)
              \<longrightarrow> pix' ! nat j = pix1 ! nat j"
    by blast+
  have away: "\<forall>k'\<in>set ks. off k + 4 \<le> off k' \<or> off k' + 4 \<le> off k"
    using Cons.prems(2) kn by auto
  have "get4 pix' (off k) = get4 pix1 (off k)"
  proof (rule get4_cong [OF len], intro allI impI)
    fix j assume j: "off k \<le> j \<and> j < off k + 4"
    with p4 have "0 \<le> j" by simp
    moreover have "\<forall>k'\<in>set ks. j < off k' \<or> off k' + 4 \<le> j"
      using away j by fastforce
    ultimately show "pix' ! nat j = pix1 ! nat j" using same by blast
  qed
  with p4 g have ck: "\<exists>v. g k = Inr v \<and> get4 pix' (off k) = Inr v" by simp
  have "pix' ! nat j = pix ! nat j"
    if "0 \<le> j" "\<forall>k'\<in>set (k # ks). j < off k' \<or> off k' + 4 \<le> j" for j
  proof -
    from that have "pix' ! nat j = pix1 ! nat j" using same by simp
    also from that p4 have "pix1 ! nat j = pix ! nat j" by auto
    finally show ?thesis .
  qed
  with len p4 ck cells show ?case by simp
qed

lemma cell_offsets_apart:
  fixes W :: int
  assumes "0 \<le> x" "x < W" "0 \<le> x'" "x' < W" "(y, x) \<noteq> (y', x')"
  shows "y * (4 * W) + x * 4 + 4 \<le> y' * (4 * W) + x' * 4
       \<or> y' * (4 * W) + x' * 4 + 4 \<le> y * (4 * W) + x * 4"
proof -
  consider "y = y'" | "y < y'" | "y' < y" by linarith
  then show ?thesis
  proof cases
    case 1
    with assms show ?thesis by auto
  next
    case 2
    then have "(y + 1) * (4 * W) \<le> y' * (4 * W)"
      using assms by (intro mult_right_mono) auto
    then have "y * (4 * W) + 4 * W \<le> y' * (4 * W)" by (simp add: algebra_simps)
    with assms show ?thesis by auto
  next
    case 3
    then have "(y' + 1) * (4 * W) \<le> y * (4 * W)"
      using assms by (intro mult_right_mono) auto
    then have "y' * (4 * W) + 4 * W \<le> y * (4 * W)" by (simp add: algebra_simps)
    with assms show ?thesis by auto
  qed
qed

lemma Intersect_self:
  "\<not> Empty r \<Longrightarrow> Intersect r r = r"
  by (cases r) (simp add: Intersect_def Empty_def)

lemma AddPt_0: "AddPt r 0 0 = r"
  by (simp add: AddPt_def)

lemma DrawMaskSrc_pixels:
  assumes dm: "DrawMaskSrc (newBuf 4 R) R src msk = Inr dst'"
    and R: "R = \<lparr>MinX = 0, MinY = 0, MaxX = W, MaxY = H\<rparr>" and W: "0 < W" and H: "0 < H"
    and bs: "Bounds (buf src) = R" and bm: "Bounds (buf msk) = R"
  shows "Bounds dst' = R \<and> Stride dst' = 4 * W \<and> int (length (Pix dst')) = 4 * W * H
     \<and> (\<forall>x y. 0 \<le> x \<and> x < W \<and> 0 \<le> y \<and> y < H \<longrightarrow>
           (\<exists>mc sc. At msk x y = Inr mc \<and> At src x y = Inr sc
              \<and> get4 (Pix dst') (y * (4 * W) + x * 4) = Inr (blendSrc mc sc)))"
proof -
  define dst where "dst = newBuf 4 R"
  have ne: "\<not> Empty R" using R W H by (simp add: Empty_def)
  have dst: "Bounds dst = R" "Stride dst = 4 * W" "int (length (Pix dst)) = 4 * W * H"
    using W H by (simp_all add: dst_def newBuf_def R Dx_def Dy_def)
  define g where "g = (\<lambda>(y, x). bindE (At msk x y) (\<lambda>mc. bindE (At src x y) (\<lambda>sc.
      Inr (blendSrc mc sc))))"
  define off where "off = (\<lambda>(y :: int, x :: int). y * (4 * W) + x * 4)"
  define step where "step = (\<lambda>(y, x). drawPixel dst 0 0 src msk y x)"
  define ks where "ks = List.product [0..H - 1] [0..W - 1]"
  have step: "step k pix = bindE (g k) (\<lambda>(a, b, c, d). put4 pix (off k) a b c d)" for k pix
    by (cases k)
       (auto simp: step_def g_def off_def drawPixel_def bindE_def PixOffset_def dst R
             split: sum.splits prod.splits)
  have m0: "MinX R = 0" "MinY R = 0" "MaxX R = W" "MaxY R = H"
    by (simp_all add: R)
  from dm have "DrawMaskSrc dst R src msk = Inr dst'" by (simp add: dst_def)
  then have "bindE (foldE (\<lambda>y. foldE (drawPixel dst 0 0 src msk y) [0..W - 1]) [0..H - 1] (Pix dst))
                (\<lambda>pix. Inr (dst\<lparr>Pix := pix\<rparr>)) = Inr dst'"
    unfolding DrawMaskSrc_def Let_def
    using ne by (simp only: dst(1) bs bm m0 AddPt_0 Intersect_self [OF ne] if_False)
  then obtain pix' where
    f: "foldE (\<lambda>y. foldE (drawPixel dst 0 0 src msk y) [0..W - 1]) [0..H - 1] (Pix dst) = Inr pix'"
    and d': "dst' = dst\<lparr>Pix := pix'\<rparr>"
    by (auto simp: bindE_def split: sum.splits)
  from f have f': "foldE step ks (Pix dst) = Inr pix'"
    by (simp add: foldE_nested step_def ks_def)
  have apart: "\<forall>k\<in>set ks. \<forall>k'\<in>set ks. k \<noteq> k' \<longrightarrow> off k + 4 \<le> off k' \<or> off k' + 4 \<le> off k"
  proof (intro ballI impI)
    fix k k' assume k: "k \<in> set ks" and k': "k' \<in> set ks" and ne: "k \<noteq> k'"
    obtain y x where kk: "k = (y, x)" by (cases k)
    obtain y' x' where kk': "k' = (y', x')" by (cases k')
    from k kk have x: "0 \<le> x" "x < W" by (simp_all add: ks_def)
    from k' kk' have x': "0 \<le> x'" "x' < W" by (simp_all add: ks_def)
    from ne kk kk' have "(y, x) \<noteq> (y', x')" by simp
    from cell_offsets_apart [OF x x' this]
    show "off k + 4 \<le> off k' \<or> off k' + 4 \<le> off k"
      by (simp add: off_def kk kk')
  qed
  have dist: "distinct ks"
    by (simp add: ks_def distinct_product)
  from foldE_cells [of step g off, OF step f' apart dist]
  have len: "length pix' = length (Pix dst)"
    and cells: "\<forall>k\<in>set ks. \<exists>v. g k = Inr v \<and> get4 pix' (off k) = Inr v"
    by blast+
  have "\<exists>mc sc. At msk x y = Inr mc \<and> At src x y = Inr sc
              \<and> get4 (Pix dst') (y * (4 * W) + x * 4) = Inr (blendSrc mc sc)"
    if "0 \<le> x \<and> x < W \<and> 0 \<le> y \<and> y < H" for x y
  proof -
    from that have "(y, x) \<in> set ks" by (simp add: ks_def)
    with cells obtain v where "g (y, x) = Inr v" "get4 pix' (off (y, x)) = Inr v" by blast
    then show ?thesis
      by (auto simp: g_def off_def d' bindE_def split: sum.splits)
  qed
  then show ?thesis
    using d' dst len by simp
qed

lemma byte_257: "word_of_nat (unat (r :: byte) * 257 div 256) = r"
proof -
  have "unat r < 256" using unsigned_less [of r, where 'a = nat] by simp
  then have "unat r * 257 div 256 = unat r" by simp
  then show ?thesis by simp
qed

lemma premul8_RGBA: "premul8 (ColorRGBA c) = c"
  by (cases c) (simp add: premul8_def byte_257)

lemma premul8_NRGBA_alpha: "cA (premul8 (ColorNRGBA r g b a)) = a"
  by (simp add: premul8_def byte_257)

lemma blendSrc_opaque:
  "cA p = 0xff \<Longrightarrow> blendSrc (ColorRGBA p) sc
     = (cR (premul8 sc), cG (premul8 sc), cB (premul8 sc), cA (premul8 sc))"
  by (cases p; cases "RGBA16 sc") (simp add: blendSrc_def premul8_def)

lemma blendSrc_transparent: "blendSrc (ColorRGBA (RGBA 0 0 0 0)) sc = (0, 0, 0, 0)"
  by (cases "RGBA16 sc") (simp add: blendSrc_def)

lemma byte_lt_2: "unat (i :: byte) < 2 \<Longrightarrow> i = 0 \<or> i = 1"
proof -
  assume "unat i < 2"
  then have "unat i = unat (0 :: byte) \<or> unat i = unat (1 :: byte)" by auto
  then show ?thesis by (simp only: word_unat_eq_iff [symmetric])
qed

lemma composite_pixels:
  assumes c: "composite xorImg andImg = Inr img"
    and am: "andImg = Paletted mb [p0, p1]" and p0: "cA p0 = 0xff"
    and R: "R = \<lparr>MinX = 0, MinY = 0, MaxX = W, MaxY = H\<rparr>" and W: "0 < W" and H: "0 < H"
    and bx: "Bounds (buf xorImg) = R" and bm: "Bounds mb = R" and sm: "Stride mb = W"
  shows "\<exists>pb. img = ImageRGBA pb \<and> Bounds pb = R
     \<and> (\<forall>x y. 0 \<le> x \<and> x < W \<and> 0 \<le> y \<and> y < H \<longrightarrow>
           (\<exists>i sc. getI (Pix mb) (y * W + x) = Inr i \<and> (i = 0 \<or> i = 1)
              \<and> At xorImg x y = Inr sc
              \<and> At img x y = Inr (ColorRGBA (if i = 1 then RGBA 0 0 0 0 else premul8 sc))))"
proof -
  let ?msk = "Paletted mb [p0, RGBA 0 0 0 0]"
  have nb: "Bounds (newBuf 4 R) = R" by (simp add: newBuf_def)
  from c obtain dst' where dm: "DrawMaskSrc (newBuf 4 R) R xorImg ?msk = Inr dst'"
    and img: "img = ImageRGBA dst'"
    by (auto simp: composite_def am setE_def bindE_def Let_def bx nb split: sum.splits)
  have bmsk: "Bounds (buf ?msk) = R" by (simp add: bm)
  from DrawMaskSrc_pixels [OF dm R W H bx bmsk]
  have b: "Bounds dst' = R" and s: "Stride dst' = 4 * W"
    and px: "\<forall>x y. 0 \<le> x \<and> x < W \<and> 0 \<le> y \<and> y < H \<longrightarrow>
           (\<exists>mc sc. At ?msk x y = Inr mc \<and> At xorImg x y = Inr sc
              \<and> get4 (Pix dst') (y * (4 * W) + x * 4) = Inr (blendSrc mc sc))"
    by blast+
  have "\<exists>i sc. getI (Pix mb) (y * W + x) = Inr i \<and> (i = 0 \<or> i = 1)
              \<and> At xorImg x y = Inr sc
              \<and> At img x y = Inr (ColorRGBA (if i = 1 then RGBA 0 0 0 0 else premul8 sc))"
    if r: "0 \<le> x \<and> x < W \<and> 0 \<le> y \<and> y < H" for x y
  proof -
    from px r obtain mc sc where m: "At ?msk x y = Inr mc" and x: "At xorImg x y = Inr sc"
      and g: "get4 (Pix dst') (y * (4 * W) + x * 4) = Inr (blendSrc mc sc)"
      by blast
    have inr: "inRect x y R" using r by (simp add: inRect_def R)
    from m inr obtain i where i: "getI (Pix mb) (y * W + x) = Inr i"
      and il: "unat i < 2" and mc: "mc = ColorRGBA ([p0, RGBA 0 0 0 0] ! unat i)"
      by (auto simp: bm sm PixOffset_def R bindE_def getE_def split: sum.splits if_splits)
    from byte_lt_2 [OF il] have i01: "i = 0 \<or> i = 1" .
    have at: "At img x y = Inr (ColorRGBA (RGBA a b c d))"
      if "blendSrc mc sc = (a, b, c, d)" for a b c d
      using g that inr by (simp add: img b s PixOffset_def R bindE_def)
    from i01 show ?thesis
    proof
      assume i0: "i = 0"
      then have "mc = ColorRGBA p0" using mc by simp
      then have "blendSrc mc sc
          = (cR (premul8 sc), cG (premul8 sc), cB (premul8 sc), cA (premul8 sc))"
        using p0 by (simp add: blendSrc_opaque)
      from at [OF this] i x i0 show ?thesis
        by (cases "premul8 sc") auto
    next
      assume i1: "i = 1"
      then have "mc = ColorRGBA (RGBA 0 0 0 0)" using mc by simp
      then have "blendSrc mc sc = (0, 0, 0, 0)" by (simp add: blendSrc_transparent)
      from at [OF this] i x i1 show ?thesis by auto
    qed
  qed
  then show ?thesis using img b by blast
qed

subsection \<open>The two streams of an entry, decoded\<close>

lemma u32_recompose:
  "ucast (ucast v :: byte) OR push_bit 8 (ucast (ucast (drop_bit 8 v) :: byte))
     OR push_bit 16 (ucast (ucast (drop_bit 16 v) :: byte))
     OR push_bit 24 (ucast (ucast (drop_bit 24 v) :: byte)) = (v :: 32 word)"
proof (rule bit_word_eqI)
  fix n assume "n < LENGTH(32)"
  then consider "n < 8" | "8 \<le> n \<and> n < 16" | "16 \<le> n \<and> n < 24" | "24 \<le> n \<and> n < 32"
    by fastforce
  then show "bit (ucast (ucast v :: byte) OR push_bit 8 (ucast (ucast (drop_bit 8 v) :: byte))
     OR push_bit 16 (ucast (ucast (drop_bit 16 v) :: byte))
     OR push_bit 24 (ucast (ucast (drop_bit 24 v) :: byte)) :: 32 word) n = bit v n"
    by cases (auto simp: bit_simps)
qed

lemma u16_recompose:
  "ucast (ucast v :: byte) OR push_bit 8 (ucast (ucast (drop_bit 8 v) :: byte)) = (v :: 16 word)"
  by (rule bit_word_eqI) (auto simp: bit_simps)

lemma ReadInfoHeader_built:
  "ReadInfoHeader (put32 s @ put32 w @ put32 h @ put16 pl @ put16 bc @ put32 cp @ put32 si
       @ put32 xp @ put32 yp @ put32 cu @ put32 ci @ rest)
     = (if sint w \<le> 0 then Inl (WidthError w)
        else if h = 0 then Inl (HeightError h)
        else Inr (\<lparr>ih_Size = s, ih_Width = w, ih_Height = h, ih_Planes = pl, ih_BitCount = bc,
                   ih_Compression = cp, ih_SizeImage = si, ih_XPelsPerMeter = xp,
                   ih_YPelsPerMeter = yp, ih_ColorUsed = cu, ih_ColorImportant = ci\<rparr>, rest))"
  by (simp add: ReadInfoHeader_def ReadFull_def put32_def put16_def u32_at_def u16_at_def
        u32_recompose u16_recompose Let_def)

lemma readFileHeader_built:
  "\<exists>fh. readFileHeader (BM @ put32 a @ put16 b @ put16 c @ put32 e @ rest) = Inr (fh, rest)"
  by (simp add: readFileHeader_def ReadFull_def BM_def put32_def put16_def u16_at_def Let_def)

lemma decodeInto_Inr:
  "decodeInto sf unpack rowLen d r img = Inr img' \<Longrightarrow> \<exists>pix. img' = withPix img pix"
  by (auto simp: decodeInto_def bindE_def split: if_splits prod.splits sum.splits)

lemma decode_kind:
  assumes "decode d r = Inr img"
  shows "(bpp d = 1 \<or> bpp d = 4 \<or> bpp d = 8)
           \<and> (\<exists>pb pal. img = Paletted pb pal \<and> cfg_ColorModel (config d) = Palette pal)
       \<or> bpp d = 24 \<and> (\<exists>pb. img = ImageRGBA pb)
       \<or> bpp d = 32 \<and> (\<exists>pb. img = ImageNRGBA pb)"
proof -
  from assms have cases: "bpp d = 1 \<or> bpp d = 4 \<or> bpp d = 8 \<or> bpp d = 24 \<or> bpp d = 32"
    by (auto simp: decode_def split: if_splits)
  then show ?thesis
  proof (elim disjE)
    assume b: "bpp d = 1"
    with assms show ?thesis
      by (auto simp: decode_def decode1_def Let_def NewPaletted_def
            split: color_model.splits dest!: decodeInto_Inr)
  next
    assume b: "bpp d = 4"
    with assms show ?thesis
      by (auto simp: decode_def decode4_def Let_def NewPaletted_def
            split: color_model.splits dest!: decodeInto_Inr)
  next
    assume b: "bpp d = 8"
    with assms show ?thesis
      by (auto simp: decode_def decode8_def Let_def NewPaletted_def
            split: color_model.splits dest!: decodeInto_Inr)
  next
    assume b: "bpp d = 24"
    with assms show ?thesis
      by (auto simp: decode_def decode24_def Let_def NewRGBA_def dest!: decodeInto_Inr)
  next
    assume b: "bpp d = 32"
    with assms show ?thesis
      by (auto simp: decode_def decode32_def Let_def NewNRGBA_def dest!: decodeInto_Inr)
  qed
qed

text \<open>The geometry and the kind of an image that bmp.Decode returns, from the info header.\<close>

lemma bmp_Decode_facts:
  assumes "bmp_Decode r = Inr img"
  shows "\<exists>fh ih r1 r2 d r3.
     readFileHeader r = Inr (fh, r1) \<and> ReadInfoHeader r1 = Inr (ih, r2)
     \<and> newDecoder r = Inr (d, r3) \<and> decode d r3 = Inr img
     \<and> bpp d = uint (ih_BitCount ih)
     \<and> 0 < sint (ih_Width ih) \<and> 0 < \<bar>sint (ih_Height ih)\<bar>
     \<and> cfg_Width (config d) = sint (ih_Width ih)
     \<and> cfg_Height (config d) = \<bar>sint (ih_Height ih)\<bar>
     \<and> Bounds (buf img) = \<lparr>MinX = 0, MinY = 0, MaxX = sint (ih_Width ih),
                              MaxY = \<bar>sint (ih_Height ih)\<bar>\<rparr>
     \<and> Stride (buf img) = (if bpp d = 24 \<or> bpp d = 32 then 4 else 1) * sint (ih_Width ih)
     \<and> length (Pix (buf img)) = nat (Stride (buf img)) * nat \<bar>sint (ih_Height ih)\<bar>
     \<and> (indexedDepth (ih_BitCount ih) \<longrightarrow>
           (\<exists>clrs. ReadFull r2 (unat (if ih_ColorUsed ih = 0
                                            then push_bit (unat (ih_BitCount ih)) 1
                                            else ih_ColorUsed ih) * 4) = Inr (clrs, r3)
               \<and> cfg_ColorModel (config d)
                   = Palette (map (\<lambda>i. colorBGR_RGBA clrs (4 * i))
                       [0..<unat (if ih_ColorUsed ih = 0
                                  then push_bit (unat (ih_BitCount ih)) 1
                                  else ih_ColorUsed ih)])))"
proof -
  from assms obtain d r3 where nd: "newDecoder r = Inr (d, r3)" and dec: "decode d r3 = Inr img"
    by (auto simp: bmp_Decode_def bindE_def split: sum.splits)
  from newDecoder_Inr [OF nd] obtain fh ih r1 r2 where
    fh: "readFileHeader r = Inr (fh, r1)" and ri: "ReadInfoHeader r1 = Inr (ih, r2)"
    and bp: "bpp d = uint (ih_BitCount ih)"
    and wd: "cfg_Width (config d) = sint (ih_Width ih)"
    and ht: "cfg_Height (config d)
         = (if sint (ih_Height ih) < 0 then sint (- ih_Height ih) else sint (ih_Height ih))"
    and pal: "if indexedDepth (ih_BitCount ih)
         then \<exists>clrs. ReadFull r2 (unat (if ih_ColorUsed ih = 0
                                            then push_bit (unat (ih_BitCount ih)) 1
                                            else ih_ColorUsed ih) * 4) = Inr (clrs, r3)
               \<and> cfg_ColorModel (config d)
                   = Palette (map (\<lambda>i. colorBGR_RGBA clrs (4 * i))
                       [0..<unat (if ih_ColorUsed ih = 0
                                  then push_bit (unat (ih_BitCount ih)) 1
                                  else ih_ColorUsed ih)])
         else directDepth (ih_BitCount ih)
              \<and> cfg_ColorModel (config d) = RGBAModel \<and> r3 = r2"
    by blast
  note rows = decode_rows [OF nd dec]
  from rows have hp: "0 < cfg_Height (config d)" by blast
  have habs: "cfg_Height (config d) = \<bar>sint (ih_Height ih)\<bar>"
    using ht hp by (auto simp: sint_neg_32 split: if_splits)
  from ReadInfoHeader_valid [OF ri] have w0: "0 < sint (ih_Width ih)" by simp
  from rows have
    b: "Bounds (buf img) = \<lparr>MinX = 0, MinY = 0, MaxX = cfg_Width (config d),
                            MaxY = cfg_Height (config d)\<rparr>"
    and s: "Stride (buf img) = (if bpp d = 24 \<or> bpp d = 32 then 4 else 1) * cfg_Width (config d)"
    and l: "length (Pix (buf img)) = nat (Stride (buf img)) * nat (cfg_Height (config d))"
    by blast+
  have p: "indexedDepth (ih_BitCount ih) \<longrightarrow>
           (\<exists>clrs. ReadFull r2 (unat (if ih_ColorUsed ih = 0
                                            then push_bit (unat (ih_BitCount ih)) 1
                                            else ih_ColorUsed ih) * 4) = Inr (clrs, r3)
               \<and> cfg_ColorModel (config d)
                   = Palette (map (\<lambda>i. colorBGR_RGBA clrs (4 * i))
                       [0..<unat (if ih_ColorUsed ih = 0
                                  then push_bit (unat (ih_BitCount ih)) 1
                                  else ih_ColorUsed ih)]))"
    using pal by (cases "indexedDepth (ih_BitCount ih)") simp_all
  have hp': "0 < \<bar>sint (ih_Height ih)\<bar>" using hp habs by simp
  show ?thesis
    using fh ri nd dec bp w0 hp' wd habs b [unfolded wd habs] s [unfolded wd] l [unfolded habs] p
    by blast
qed

lemma and_image:
  assumes "bmp_Decode (andStream dir ih d) = Inr andImg"
  shows "\<exists>mb. andImg = Paletted mb [RGBA 0 0 0 0xff, RGBA 0xff 0xff 0xff 0xff]
     \<and> Bounds mb = \<lparr>MinX = 0, MinY = 0, MaxX = sint (ih_Width ih),
                      MaxY = \<bar>sint (halfHeight ih)\<bar>\<rparr>
     \<and> Stride mb = sint (ih_Width ih)
     \<and> 0 < sint (ih_Width ih) \<and> 0 < \<bar>sint (halfHeight ih)\<bar>"
proof -
  define rest where "rest = [0x00, 0x00, 0x00, 0xff] @ [0xff, 0xff, 0xff, 0xff :: byte]
      @ drop (unat (xorSize dir ih)) d"
  define ihs where "ihs = put32 bmpInfoHeaderSize @ put32 (ih_Width ih) @ put32 (halfHeight ih)
            @ put16 0 @ put16 1
            @ put32 0 @ put32 0 @ put32 0 @ put32 0 @ put32 0 @ put32 0 @ rest"
  obtain a e where st: "andStream dir ih d = BM @ put32 a @ put16 0 @ put16 0 @ put32 e @ ihs"
    by (simp add: andStream_def Let_def ihs_def rest_def)
  from readFileHeader_built [of a 0 0 e ihs] obtain fh0 where
    f0: "readFileHeader (andStream dir ih d) = Inr (fh0, ihs)"
    unfolding st by blast
  from bmp_Decode_facts [OF assms] obtain fh ih' r1 r2 dd r3 where
    fh: "readFileHeader (andStream dir ih d) = Inr (fh, r1)"
    and ri: "ReadInfoHeader r1 = Inr (ih', r2)"
    and dec: "decode dd r3 = Inr andImg"
    and bp: "bpp dd = uint (ih_BitCount ih')"
    and w0: "0 < sint (ih_Width ih')" and h0: "0 < \<bar>sint (ih_Height ih')\<bar>"
    and b: "Bounds (buf andImg) = \<lparr>MinX = 0, MinY = 0, MaxX = sint (ih_Width ih'),
                              MaxY = \<bar>sint (ih_Height ih')\<bar>\<rparr>"
    and s: "Stride (buf andImg) = (if bpp dd = 24 \<or> bpp dd = 32 then 4 else 1) * sint (ih_Width ih')"
    and pal: "indexedDepth (ih_BitCount ih') \<longrightarrow>
           (\<exists>clrs. ReadFull r2 (unat (if ih_ColorUsed ih' = 0
                                            then push_bit (unat (ih_BitCount ih')) 1
                                            else ih_ColorUsed ih') * 4) = Inr (clrs, r3)
               \<and> cfg_ColorModel (config dd)
                   = Palette (map (\<lambda>i. colorBGR_RGBA clrs (4 * i))
                       [0..<unat (if ih_ColorUsed ih' = 0
                                  then push_bit (unat (ih_BitCount ih')) 1
                                  else ih_ColorUsed ih')]))"
    by blast
  from fh f0 have r1: "r1 = ihs" by simp
  from ri have ih': "ih_Width ih' = ih_Width ih" "ih_Height ih' = halfHeight ih"
      "ih_BitCount ih' = 1" "ih_ColorUsed ih' = 0" and r2: "r2 = rest"
    unfolding r1 ihs_def ReadInfoHeader_built
    by (auto split: if_splits)
  have b1: "bpp dd = 1" using bp ih' by simp
  from pal ih' r2 have cm: "cfg_ColorModel (config dd)
      = Palette [RGBA 0 0 0 0xff, RGBA 0xff 0xff 0xff 0xff]"
    by (auto simp: indexedDepth_def rest_def ReadFull_def colorBGR_RGBA_def upt_rec
          split: if_splits)
  from decode_kind [OF dec] b1 cm obtain mb where
    "andImg = Paletted mb [RGBA 0 0 0 0xff, RGBA 0xff 0xff 0xff 0xff]"
    by auto
  with b s b1 w0 h0 ih' show ?thesis by simp
qed


lemma unpack24_step:
  assumes "bindE (getE row (j + 2)) (\<lambda>v. bindE (setE q (i + 0) v) (\<lambda>p.
           bindE (getE row (j + 1)) (\<lambda>v. bindE (setE p (i + 1) v) (\<lambda>p.
           bindE (getE row (j + 0)) (\<lambda>v. bindE (setE p (i + 2) v) (\<lambda>p.
           setE p (i + 3) 0xff)))))) = Inr q'"
  shows "length q' = length q \<and> i + 3 < length q \<and> q' ! (i + 3) = 0xff
     \<and> (\<forall>m. m < i \<longrightarrow> q' ! m = q ! m)"
  using assms
  by (auto simp: bindE_def getE_def setE_def split: if_splits)

lemma unpack24_prefix:
  "foldE (\<lambda>k p. let i = 4 * k; j = 3 * k in
              bindE (getE row (j + 2)) (\<lambda>v. bindE (setE p (i + 0) v) (\<lambda>p.
              bindE (getE row (j + 1)) (\<lambda>v. bindE (setE p (i + 1) v) (\<lambda>p.
              bindE (getE row (j + 0)) (\<lambda>v. bindE (setE p (i + 2) v) (\<lambda>p.
              setE p (i + 3) 0xff))))))) [0..<n] p0 = Inr q
   \<Longrightarrow> length q = length p0 \<and> (\<forall>k<n. q ! (4 * k + 3) = 0xff)"
proof (induction n arbitrary: q)
  case 0
  then show ?case by simp
next
  case (Suc n)
  let ?f = "\<lambda>k p. let i = 4 * k; j = 3 * k in
              bindE (getE row (j + 2)) (\<lambda>v. bindE (setE p (i + 0) v) (\<lambda>p.
              bindE (getE row (j + 1)) (\<lambda>v. bindE (setE p (i + 1) v) (\<lambda>p.
              bindE (getE row (j + 0)) (\<lambda>v. bindE (setE p (i + 2) v) (\<lambda>p.
              setE p (i + 3) 0xff))))))"
  from Suc.prems obtain q0 where a: "foldE ?f [0..<n] p0 = Inr q0" and b: "?f n q0 = Inr q"
    by (auto simp: foldE_append bindE_def split: sum.splits)
  from Suc.IH [OF a] have l0: "length q0 = length p0" and al: "\<forall>k<n. q0 ! (4 * k + 3) = 0xff"
    by simp_all
  from b have b': "bindE (getE row (3 * n + 2)) (\<lambda>v. bindE (setE q0 (4 * n + 0) v) (\<lambda>p.
           bindE (getE row (3 * n + 1)) (\<lambda>v. bindE (setE p (4 * n + 1) v) (\<lambda>p.
           bindE (getE row (3 * n + 0)) (\<lambda>v. bindE (setE p (4 * n + 2) v) (\<lambda>p.
           setE p (4 * n + 3) 0xff)))))) = Inr q"
    by (simp add: Let_def)
  note st = unpack24_step [OF b']
  have "q ! (4 * k + 3) = 0xff" if "k < Suc n" for k
  proof (cases "k = n")
    case True
    with st show ?thesis by simp
  next
    case False
    with that have kn: "k < n" by simp
    then have "4 * k + 3 < 4 * n" by simp
    with st have "q ! (4 * k + 3) = q0 ! (4 * k + 3)" by blast
    with al kn show ?thesis by simp
  qed
  with st l0 show ?case by simp
qed

lemma unpack24_alpha:
  "unpack24 w row p0 = Inr p \<Longrightarrow> k < nat w \<Longrightarrow> p ! (4 * k + 3) = 0xff"
  unfolding unpack24_def by (drule unpack24_prefix) simp

lemma rowAt_nth:
  "base + n \<le> length pix \<Longrightarrow> j < n \<Longrightarrow> rowAt pix base n ! j = pix ! (base + j)"
  by (simp add: rowAt_def)

lemma alpha_premul8: "cA (premul8 sc) = alphaOf sc"
  by (cases sc) (simp_all add: premul8_RGBA premul8_NRGBA_alpha)

lemma xor_header:
  assumes "bmp_Decode (xorStream dir ih d) = Inr xorImg"
  shows "\<exists>dd r3. newDecoder (xorStream dir ih d) = Inr (dd, r3) \<and> decode dd r3 = Inr xorImg
     \<and> bpp dd = uint (ih_BitCount ih)
     \<and> cfg_Width (config dd) = sint (ih_Width ih)
     \<and> cfg_Height (config dd) = \<bar>sint (halfHeight ih)\<bar>
     \<and> 0 < sint (ih_Width ih) \<and> 0 < \<bar>sint (halfHeight ih)\<bar>
     \<and> Bounds (buf xorImg) = \<lparr>MinX = 0, MinY = 0, MaxX = sint (ih_Width ih),
                                 MaxY = \<bar>sint (halfHeight ih)\<bar>\<rparr>
     \<and> Stride (buf xorImg) = (if bpp dd = 24 \<or> bpp dd = 32 then 4 else 1) * sint (ih_Width ih)
     \<and> length (Pix (buf xorImg)) = nat (Stride (buf xorImg)) * nat \<bar>sint (halfHeight ih)\<bar>
     \<and> (indexedDepth (ih_BitCount ih) \<longrightarrow>
           (\<exists>clrs n. cfg_ColorModel (config dd)
                   = Palette (map (\<lambda>i. colorBGR_RGBA clrs (4 * i)) [0..<n])))"
proof -
  define rest where "rest = take (unat (xorSize dir ih)) d"
  define ihs where "ihs = put32 (ih_Size ih) @ put32 (ih_Width ih) @ put32 (halfHeight ih)
        @ put16 (ih_Planes ih) @ put16 (ih_BitCount ih)
        @ put32 (ih_Compression ih) @ put32 (ih_SizeImage ih)
        @ put32 (ih_XPelsPerMeter ih) @ put32 (ih_YPelsPerMeter ih)
        @ put32 (ih_ColorUsed ih) @ put32 (ih_ColorImportant ih) @ rest"
  obtain a e where st: "xorStream dir ih d = BM @ put32 a @ put16 0 @ put16 0 @ put32 e @ ihs"
    by (simp add: xorStream_def ihs_def rest_def)
  from readFileHeader_built [of a 0 0 e ihs] obtain fh0 where
    f0: "readFileHeader (xorStream dir ih d) = Inr (fh0, ihs)"
    unfolding st by blast
  from bmp_Decode_facts [OF assms] obtain fh ih' r1 r2 dd r3 where
    fh: "readFileHeader (xorStream dir ih d) = Inr (fh, r1)"
    and ri: "ReadInfoHeader r1 = Inr (ih', r2)"
    and nd: "newDecoder (xorStream dir ih d) = Inr (dd, r3)"
    and dec: "decode dd r3 = Inr xorImg"
    and bp: "bpp dd = uint (ih_BitCount ih')"
    and w0: "0 < sint (ih_Width ih')" and h0: "0 < \<bar>sint (ih_Height ih')\<bar>"
    and cw: "cfg_Width (config dd) = sint (ih_Width ih')"
    and ch: "cfg_Height (config dd) = \<bar>sint (ih_Height ih')\<bar>"
    and b: "Bounds (buf xorImg) = \<lparr>MinX = 0, MinY = 0, MaxX = sint (ih_Width ih'),
                              MaxY = \<bar>sint (ih_Height ih')\<bar>\<rparr>"
    and s: "Stride (buf xorImg) = (if bpp dd = 24 \<or> bpp dd = 32 then 4 else 1) * sint (ih_Width ih')"
    and l: "length (Pix (buf xorImg)) = nat (Stride (buf xorImg)) * nat \<bar>sint (ih_Height ih')\<bar>"
    and pal: "indexedDepth (ih_BitCount ih') \<longrightarrow>
           (\<exists>clrs. ReadFull r2 (unat (if ih_ColorUsed ih' = 0
                                            then push_bit (unat (ih_BitCount ih')) 1
                                            else ih_ColorUsed ih') * 4) = Inr (clrs, r3)
               \<and> cfg_ColorModel (config dd)
                   = Palette (map (\<lambda>i. colorBGR_RGBA clrs (4 * i))
                       [0..<unat (if ih_ColorUsed ih' = 0
                                  then push_bit (unat (ih_BitCount ih')) 1
                                  else ih_ColorUsed ih')]))"
    by blast
  from fh f0 have r1: "r1 = ihs" by simp
  from ri have ih': "ih_Width ih' = ih_Width ih" "ih_Height ih' = halfHeight ih"
      "ih_BitCount ih' = ih_BitCount ih"
    unfolding r1 ihs_def ReadInfoHeader_built
    by (auto split: if_splits)
  from pal have pal': "indexedDepth (ih_BitCount ih) \<longrightarrow>
           (\<exists>clrs n. cfg_ColorModel (config dd)
                   = Palette (map (\<lambda>i. colorBGR_RGBA clrs (4 * i)) [0..<n]))"
    unfolding ih' by blast
  show ?thesis
    using nd dec bp w0 h0 cw ch b s l pal' unfolding ih' by blast
qed

lemma word_of_uint: "k = uint (w :: 16 word) \<Longrightarrow> w = word_of_int k"
  by simp

lemma xor_opaque:
  assumes dec: "bmp_Decode (xorStream dir ih d) = Inr xorImg"
    and n32: "ih_BitCount ih \<noteq> 32"
    and inr: "inRect x y (Bounds (buf xorImg))"
    and at: "At xorImg x y = Inr sc"
  shows "alphaOf sc = 0xff"
proof -
  define W where "W = sint (ih_Width ih)"
  define H where "H = \<bar>sint (halfHeight ih)\<bar>"
  from xor_header [OF dec] obtain dd r3 where
    nd: "newDecoder (xorStream dir ih d) = Inr (dd, r3)" and de: "decode dd r3 = Inr xorImg"
    and bp: "bpp dd = uint (ih_BitCount ih)"
    and cw: "cfg_Width (config dd) = W" and ch: "cfg_Height (config dd) = H"
    and W0: "0 < W" and H0: "0 < H"
    and b: "Bounds (buf xorImg) = \<lparr>MinX = 0, MinY = 0, MaxX = W, MaxY = H\<rparr>"
    and s: "Stride (buf xorImg) = (if bpp dd = 24 \<or> bpp dd = 32 then 4 else 1) * W"
    and l: "length (Pix (buf xorImg)) = nat (Stride (buf xorImg)) * nat H"
    and palf: "indexedDepth (ih_BitCount ih) \<longrightarrow>
           (\<exists>clrs n. cfg_ColorModel (config dd)
                   = Palette (map (\<lambda>i. colorBGR_RGBA clrs (4 * i)) [0..<n]))"
    unfolding W_def H_def by blast
  from inr b have xy: "0 \<le> x" "x < W" "0 \<le> y" "y < H" by (simp_all add: inRect_def)
  from bp have bc: "ih_BitCount ih = word_of_int (bpp dd)" by (rule word_of_uint)
  from decode_kind [OF de] consider
      (pal) pb pl where "bpp dd = 1 \<or> bpp dd = 4 \<or> bpp dd = 8" "xorImg = Paletted pb pl"
        "cfg_ColorModel (config dd) = Palette pl"
    | (rgb) pb where "bpp dd = 24" "xorImg = ImageRGBA pb"
    | (nrgb) pb where "bpp dd = 32" "xorImg = ImageNRGBA pb"
    by blast
  then show ?thesis
  proof cases
    case pal
    note k = pal(1) and img = pal(2) and cm = pal(3)
    from k bc have "indexedDepth (ih_BitCount ih)"
      unfolding indexedDepth_def by auto
    with palf cm
    obtain clrs n where pl: "pl = map (\<lambda>i. colorBGR_RGBA clrs (4 * i)) [0..<n]"
      by auto
    have op: "cA (pl ! j) = 0xff" if "j < length pl" for j
      using that by (simp add: pl colorBGR_RGBA_def)
    from at img inr obtain j where "j < length pl" "sc = ColorRGBA (pl ! j)"
      by (auto simp: bindE_def getE_def split: if_splits sum.splits)
    with op show ?thesis by simp
  next
    case rgb
    note k = rgb(1) and img = rgb(2)
    have S: "Stride pb = 4 * W" using s k img by simp
    have yn: "nat y < nat H" using xy by simp
    from decode_rows [OF nd de] have
      "\<forall>y < nat (cfg_Height (config dd)). \<exists>p.
          rowUnpack dd (storedRow r3 (rowLength dd)
                    (if isOpposite dd then y else nat (cfg_Height (config dd)) - 1 - y))
                 (replicate (nat (Stride (buf xorImg))) 0) = Inr p
          \<and> imageRow xorImg y = p"
      by blast
    with yn ch obtain p where
      u0: "rowUnpack dd (storedRow r3 (rowLength dd)
                    (if isOpposite dd then nat y else nat H - 1 - nat y))
                 (replicate (nat (Stride (buf xorImg))) 0) = Inr p"
      and ir: "imageRow xorImg (nat y) = p"
      by auto
    have "rowUnpack dd = unpack24 W" by (simp add: rowUnpack_def Let_def k cw)
    with u0 have u: "unpack24 W (storedRow r3 (rowLength dd)
                    (if isOpposite dd then nat y else nat H - 1 - nat y))
                 (replicate (nat (Stride (buf xorImg))) 0) = Inr p"
      by simp
    have xn: "nat x < nat W" using xy by simp
    from unpack24_alpha [OF u xn] have pa: "p ! (4 * nat x + 3) = 0xff" .
    have "Suc (nat y) \<le> nat H" using xy by simp
    then have "Suc (nat y) * nat (4 * W) \<le> nat H * nat (4 * W)" by (rule mult_le_mono1)
    then have fit: "nat y * nat (4 * W) + nat (4 * W) \<le> length (Pix pb)"
      using l img S by (simp add: mult.commute)
    have j: "4 * nat x + 3 < nat (4 * W)" using xy by simp
    have "p ! (4 * nat x + 3) = Pix pb ! (nat y * nat (4 * W) + (4 * nat x + 3))"
      using rowAt_nth [OF fit j] ir img S by (simp add: imageRow_def)
    also have "nat y * nat (4 * W) + (4 * nat x + 3) = nat (y * (4 * W) + x * 4 + 3)"
      using xy W0 by (simp add: nat_add_distrib nat_mult_distrib)
    finally have a: "Pix pb ! nat (y * (4 * W) + x * 4 + 3) = 0xff" using pa by simp
    have bb: "Bounds pb = \<lparr>MinX = 0, MinY = 0, MaxX = W, MaxY = H\<rparr>"
      using b img by simp
    from at img inr a show ?thesis
      by (auto simp: bindE_def get4_def PixOffset_def bb S split: if_splits)
  next
    case nrgb
    with bc have "ih_BitCount ih = 32" by simp
    with n32 show ?thesis by simp
  qed
qed

lemma byte_257_left: "word_of_nat (257 * unat (r :: byte) div 256) = r"
  using byte_257 [of r] by (simp add: mult.commute)

lemma premul8_opaque: "alphaOf sc = 0xff \<Longrightarrow> premul8 sc = storedRGBA sc"
proof (cases sc)
  case (ColorRGBA c)
  then show ?thesis by (simp add: premul8_RGBA)
next
  case (ColorNRGBA r g b a)
  assume "alphaOf sc = 0xff"
  with ColorNRGBA show ?thesis by (simp add: premul8_def byte_257_left)
qed

lemma alphaOf_stored: "alphaOf sc = cA (storedRGBA sc)"
  by (cases sc) simp_all

text \<open>Every pixel of the image of an entry that is not PNG.\<close>

lemma decodeBMP_composite:
  assumes "decodeBMP v data = Inr img"
  obtains ih xorS andS xorImg andImg where
    "ReadInfoHeader data = Inr (ih, drop 40 data)"
    "newBMPReader v data = Inr (xorS, andS)"
    "bmp_Decode xorS = Inr xorImg" "bmp_Decode andS = Inr andImg"
    "Bounds (buf img) = Bounds (buf xorImg)" "Bounds (buf andImg) = Bounds (buf xorImg)"
    "\<And>x y. inRect x y (Bounds (buf xorImg)) \<Longrightarrow>
       \<exists>i sc. getI (Pix (buf andImg)) (PixOffset (buf andImg) 1 x y) = Inr i
          \<and> (i = 0 \<or> i = 1) \<and> At xorImg x y = Inr sc
          \<and> At img x y = Inr (ColorRGBA (if i = 1 then RGBA 0 0 0 0 else premul8 sc))
          \<and> (ih_BitCount ih \<noteq> 32 \<longrightarrow> alphaOf sc = 0xff)"
proof -
  from assms obtain xorS andS xorImg andImg where
    nr: "newBMPReader v data = Inr (xorS, andS)"
    and dx: "bmp_Decode xorS = Inr xorImg" and da: "bmp_Decode andS = Inr andImg"
    and co: "composite xorImg andImg = Inr img"
    by (auto simp: decodeBMP_def bindE_def split: sum.splits prod.splits)
  from nr obtain ih d where ri: "ReadInfoHeader data = Inr (ih, d)"
    and xs: "xorS = xorStream v ih d" and as: "andS = andStream v ih d"
    by (auto simp: newBMPReader_def split: sum.splits prod.splits if_splits)
  from ReadInfoHeader_Inr(2) [OF ri] have d: "d = drop 40 data" .
  define W where "W = sint (ih_Width ih)"
  define H where "H = \<bar>sint (halfHeight ih)\<bar>"
  define R where "R = \<lparr>MinX = 0, MinY = 0, MaxX = W, MaxY = H\<rparr>"
  from xor_header [OF dx [unfolded xs]] have bx: "Bounds (buf xorImg) = R"
    and W0: "0 < W" and H0: "0 < H"
    unfolding R_def W_def H_def by blast+
  from and_image [OF da [unfolded as]] obtain mb where
    am: "andImg = Paletted mb [RGBA 0 0 0 0xff, RGBA 0xff 0xff 0xff 0xff]"
    and bm: "Bounds mb = R" and sm: "Stride mb = W"
    unfolding R_def W_def H_def by blast
  have p0: "cA (RGBA 0 0 0 0xff) = 0xff" by simp
  from composite_pixels [OF co am p0 R_def W0 H0 bx bm sm] obtain pb where
    img: "img = ImageRGBA pb" and bp: "Bounds pb = R"
    and px: "\<forall>x y. 0 \<le> x \<and> x < W \<and> 0 \<le> y \<and> y < H \<longrightarrow>
           (\<exists>i sc. getI (Pix mb) (y * W + x) = Inr i \<and> (i = 0 \<or> i = 1)
              \<and> At xorImg x y = Inr sc
              \<and> At img x y = Inr (ColorRGBA (if i = 1 then RGBA 0 0 0 0 else premul8 sc)))"
    by blast
  have pix: "\<exists>i sc. getI (Pix (buf andImg)) (PixOffset (buf andImg) 1 x y) = Inr i
              \<and> (i = 0 \<or> i = 1) \<and> At xorImg x y = Inr sc
              \<and> At img x y = Inr (ColorRGBA (if i = 1 then RGBA 0 0 0 0 else premul8 sc))
              \<and> (ih_BitCount ih \<noteq> 32 \<longrightarrow> alphaOf sc = 0xff)"
    if inr: "inRect x y (Bounds (buf xorImg))" for x y
  proof -
    from inr bx have xy: "0 \<le> x \<and> x < W \<and> 0 \<le> y \<and> y < H"
      by (simp add: inRect_def R_def)
    with px obtain i sc where
      a: "getI (Pix mb) (y * W + x) = Inr i" "i = 0 \<or> i = 1" "At xorImg x y = Inr sc"
        "At img x y = Inr (ColorRGBA (if i = 1 then RGBA 0 0 0 0 else premul8 sc))"
      by blast
    have po: "PixOffset (buf andImg) 1 x y = y * W + x"
      by (simp add: PixOffset_def am bm sm R_def)
    have pm: "Pix (buf andImg) = Pix mb" by (simp add: am)
    have op: "ih_BitCount ih \<noteq> 32 \<longrightarrow> alphaOf sc = 0xff"
      using xor_opaque [OF dx [unfolded xs] _ inr a(3)] by blast
    show ?thesis
      unfolding po pm using a op by (intro exI [of _ i] exI [of _ sc] conjI)
  qed
  have b1: "Bounds (buf img) = Bounds (buf xorImg)" by (simp add: img bp bx)
  have b2: "Bounds (buf andImg) = Bounds (buf xorImg)" by (simp add: am bm bx)
  show ?thesis
    by (rule that [OF ri [unfolded d] nr dx da b1 b2 pix])
qed

subsection \<open>The examples\<close>

lemma replicate_4: "replicate 4 x = [x, x, x, x]"
  by (simp add: eval_nat_numeral)

lemma ex_streams:
  "newBMPReader ex_dir ex_payload = Inr (ex_xor_stream, ex_and_stream)"
    by (simp add: newBMPReader_def ReadInfoHeader_def ReadFull_def ex_dir_def ex_payload_def
        u32_at_def u16_at_def Let_def xorSize_def psize_def rowBytes_def rowCount_def
        xorStream_def andStream_def BM_def put32_def put16_def halfHeight_def
        bmpHeaderSize_def bmpInfoHeaderSize_def signed_divide_int_def
        ex_xor_stream_def ex_and_stream_def)

lemma ex_xor_decoded: "bmp_Decode ex_xor_stream = Inr ex_xorImg"
  by (simp add: ex_xor_stream_def ex_eval decodeRows.simps upt_rec replicate_4 ex_xorImg_def)


lemma ex_and_decoded: "bmp_Decode ex_and_stream = Inr ex_andImg"
  by (simp add: ex_and_stream_def ex_eval decodeRows.simps upt_rec ex_andImg_def)

lemma ex_drawPixel: "drawPixel (newBuf 4 \<lparr>MinX = 0, MinY = 0, MaxX = 1, MaxY = 1\<rparr>) 0 0 ex_xorImg
    (Paletted \<lparr>Pix = [0], Stride = 1,
                 Bounds = \<lparr>MinX = 0, MinY = 0, MaxX = 1, MaxY = 1\<rparr>\<rparr>
                 [RGBA 0 0 0 255, RGBA 0 0 0 0]) 0 0 [0, 0, 0, 0] = Inr [15, 10, 5, 128]"
  unfolding drawPixel_def
  by (simp add: ex_xorImg_def inRect_def getI_def getE_def get4_def bindE_def put4_def blendSrc_def
        PixOffset_def newBuf_def Dx_def Dy_def)

lemma ex_composite_eq: "composite ex_xorImg ex_andImg = Inr ex_composite"
proof -
  have r: "Intersect \<lparr>MinX = 0, MinY = 0, MaxX = 1, MaxY = 1\<rparr> \<lparr>MinX = 0, MinY = 0, MaxX = 1, MaxY = 1\<rparr>
      = \<lparr>MinX = 0, MinY = 0, MaxX = 1, MaxY = 1\<rparr>"
    by (simp add: Intersect_def Empty_def)
  have n: "newBuf 4 \<lparr>MinX = 0, MinY = 0, MaxX = 1, MaxY = 1\<rparr>
      = \<lparr>Pix = [0, 0, 0, 0], Stride = 4, Bounds = \<lparr>MinX = 0, MinY = 0, MaxX = 1, MaxY = 1\<rparr>\<rparr>"
    by (simp add: newBuf_def Dx_def Dy_def replicate_4)
  have d: "DrawMaskSrc (newBuf 4 \<lparr>MinX = 0, MinY = 0, MaxX = 1, MaxY = 1\<rparr>)
      \<lparr>MinX = 0, MinY = 0, MaxX = 1, MaxY = 1\<rparr> ex_xorImg
      (Paletted \<lparr>Pix = [0], Stride = 1,
                 Bounds = \<lparr>MinX = 0, MinY = 0, MaxX = 1, MaxY = 1\<rparr>\<rparr>
                 [RGBA 0 0 0 255, RGBA 0 0 0 0])
     = Inr \<lparr>Pix = [15, 10, 5, 128], Stride = 4, Bounds = \<lparr>MinX = 0, MinY = 0, MaxX = 1, MaxY = 1\<rparr>\<rparr>"
    using ex_drawPixel
    by (simp add: DrawMaskSrc_def n ex_xorImg_def AddPt_def r Empty_def upto_rec1 bindE_def)
  show ?thesis
    using d
    by (simp add: composite_def ex_andImg_def setE_def bindE_def ex_composite_def
          ex_xorImg_def Let_def n)
qed

lemma ex_streams24:
  "newBMPReader ex_dir24 ex_payload24 = Inr (ex_xor_stream24, ex_and_stream24)"
    by (simp add: newBMPReader_def ReadInfoHeader_def ReadFull_def ex_dir24_def ex_payload24_def
        u32_at_def u16_at_def Let_def xorSize_def psize_def rowBytes_def rowCount_def
        xorStream_def andStream_def BM_def put32_def put16_def halfHeight_def
        bmpHeaderSize_def bmpInfoHeaderSize_def signed_divide_int_def
        ex_xor_stream24_def ex_and_stream24_def)

lemma replicate_32: "replicate 32 x = [x, x, x, x, x, x, x, x, x, x, x, x, x, x, x, x,
     x, x, x, x, x, x, x, x, x, x, x, x, x, x, x, x]"
  by (simp add: eval_nat_numeral)


lemma replicate_8: "replicate 8 x = [x, x, x, x, x, x, x, x]"
  by (simp add: eval_nat_numeral)

lemma replicate_24: "replicate 24 x = [x, x, x, x, x, x, x, x, x, x, x, x, x, x, x, x,
     x, x, x, x, x, x, x, x]"
  by (simp add: eval_nat_numeral)

lemma ex_xor_decoded24: "bmp_Decode ex_xor_stream24 = Inr ex_xorImg24"
  by (simp add: ex_xor_stream24_def ex_eval decodeRows.simps upt_rec replicate_32 replicate_24
        ex_xorImg24_def ex_bounds24_def)

lemma ex_and_decoded24: "bmp_Decode ex_and_stream24 = Inr ex_andImg24"
  by (simp add: ex_and_stream24_def ex_eval decodeRows.simps upt_rec replicate_8 replicate_4
        ex_andImg24_def ex_bounds24_def)

lemma ex_draw24:
  "foldE (drawPixel (newBuf 4 ex_bounds24) 0 0 ex_xorImg24
       (Paletted \<lparr>Pix = [1, 0, 1, 0, 1, 0, 1, 0], Stride = 8, Bounds = ex_bounds24\<rparr>
          [RGBA 0 0 0 255, RGBA 0 0 0 0]) 0) [0, 1, 2, 3, 4, 5, 6, 7] (replicate 32 0)
     = Inr [0, 0, 0, 0,  6, 5, 4, 255,  0, 0, 0, 0,  12, 11, 10, 255,
        0, 0, 0, 0,  18, 17, 16, 255,  0, 0, 0, 0,  24, 23, 22, 255]"
  unfolding drawPixel_def
  by (simp add: ex_xorImg24_def ex_bounds24_def inRect_def getI_def getE_def get4_def
        bindE_def put4_def blendSrc_def PixOffset_def newBuf_def Dx_def Dy_def replicate_32)

lemma ex_composite24_eq: "composite ex_xorImg24 ex_andImg24 = Inr ex_composite24"
proof -
  have r: "Intersect ex_bounds24 ex_bounds24 = ex_bounds24"
    by (simp add: Intersect_def Empty_def ex_bounds24_def)
  have a: "AddPt ex_bounds24 0 0 = ex_bounds24"
    by (simp add: AddPt_def ex_bounds24_def)
  have e: "\<not> Empty ex_bounds24"
    by (simp add: Empty_def ex_bounds24_def)
  have u: "[0..MaxX ex_bounds24 - 1] = [0, 1, 2, 3, 4, 5, 6, 7]"
    "[0..MaxY ex_bounds24 - 1] = [0]"
    by (simp_all add: ex_bounds24_def upto_rec1)
  have n: "Pix (newBuf 4 ex_bounds24) = replicate 32 0"
    "Stride (newBuf 4 ex_bounds24) = 32" "Bounds (newBuf 4 ex_bounds24) = ex_bounds24"
    by (simp_all add: newBuf_def Dx_def Dy_def ex_bounds24_def)
  have m: "MinX ex_bounds24 = 0" "MinY ex_bounds24 = 0"
    by (simp_all add: ex_bounds24_def)
  have bx: "Bounds (buf ex_xorImg24) = ex_bounds24"
    by (simp add: ex_xorImg24_def)
  have d: "DrawMaskSrc (newBuf 4 ex_bounds24) ex_bounds24 ex_xorImg24
      (Paletted \<lparr>Pix = [1, 0, 1, 0, 1, 0, 1, 0], Stride = 8, Bounds = ex_bounds24\<rparr>
          [RGBA 0 0 0 255, RGBA 0 0 0 0])
     = Inr ((newBuf 4 ex_bounds24)\<lparr>Pix := [0, 0, 0, 0,  6, 5, 4, 255,  0, 0, 0, 0,
        12, 11, 10, 255,  0, 0, 0, 0,  18, 17, 16, 255,  0, 0, 0, 0,  24, 23, 22, 255]\<rparr>)"
  proof -
    have o: "foldE (\<lambda>y. foldE (drawPixel (newBuf 4 ex_bounds24) 0 0 ex_xorImg24
          (Paletted \<lparr>Pix = [1, 0, 1, 0, 1, 0, 1, 0], Stride = 8, Bounds = ex_bounds24\<rparr>
             [RGBA 0 0 0 255, RGBA 0 0 0 0]) y) [0, 1, 2, 3, 4, 5, 6, 7]) [0] (replicate 32 0)
        = Inr [0, 0, 0, 0,  6, 5, 4, 255,  0, 0, 0, 0,  12, 11, 10, 255,
            0, 0, 0, 0,  18, 17, 16, 255,  0, 0, 0, 0,  24, 23, 22, 255]"
      by (subst foldE.simps, subst ex_draw24, simp add: bindE_def)
    show ?thesis
      by (simp add: DrawMaskSrc_def Let_def n bx m a r e u o bindE_def del: foldE.simps)
  qed
  have f: "(newBuf 4 ex_bounds24)\<lparr>Pix := p\<rparr>
      = \<lparr>Pix = p, Stride = 32, Bounds = ex_bounds24\<rparr>" for p
    by (simp add: newBuf_def Dx_def Dy_def ex_bounds24_def)
  show ?thesis
    by (simp add: composite_def ex_andImg24_def setE_def bindE_def Let_def bx n d f
          ex_composite24_def)
qed

lemma ex_decodeBMP24: "decodeBMP ex_dir24 ex_payload24 = Inr ex_composite24"
  by (simp add: decodeBMP_def ex_streams24 ex_xor_decoded24 ex_and_decoded24
        ex_composite24_eq bindE_def)

lemma ex_decodeBMP: "decodeBMP ex_dir ex_payload = Inr ex_composite"
  by (simp add: decodeBMP_def ex_streams ex_xor_decoded ex_and_decoded ex_composite_eq
        bindE_def)

lemma ex_icon_decoded: "Decode ex_png [] ex_icon = Inr [ex_composite]"
proof -
  have h: "readHeader ex_icon
      = Inr (\<lparr>hdr_Reserved = 0, hdr_ImageType = 1, hdr_Count = 1\<rparr>, drop 6 ex_icon)"
    by (simp add: container_eval ex_icon_def)
  have d: "readDirectoris (drop 6 ex_icon) 1 = Inr ([ex_dir], ex_payload)"
    by (simp add: container_eval ex_icon_def ex_dir_def)
  have l: "length ex_payload = 48" "take 3 (drop (Suc 0) ex_payload) \<noteq> PNG"
    by (simp_all add: ex_payload_def PNG_def)
  have e: "decodeEntry ex_png ex_payload [] 1 ex_dir = Inr ex_composite"
    using ex_truncated_range by (simp add: decodeEntry_def l ex_decodeBMP)
  show ?thesis
    using e by (simp add: Decode_def h d bindE_def)
qed

lemma ex24_pixels:
  "inRect 0 0 (Bounds (buf ex_xorImg24))" "inRect 1 0 (Bounds (buf ex_xorImg24))"
  "getI (Pix (buf ex_andImg24)) (PixOffset (buf ex_andImg24) 1 0 0) = Inr 1"
  "getI (Pix (buf ex_andImg24)) (PixOffset (buf ex_andImg24) 1 1 0) = Inr 0"
  "At ex_xorImg24 1 0 = Inr (ColorRGBA (RGBA 6 5 4 255))"
  by (simp_all add: ex_xorImg24_def ex_andImg24_def ex_bounds24_def inRect_def getI_def
        PixOffset_def get4_def bindE_def)

lemma ex24_header: "ReadInfoHeader ex_payload24 = Inr (ih, r) \<Longrightarrow> ih_BitCount ih = 24"
  by (auto simp: ReadInfoHeader_def ReadFull_def ex_payload24_def u32_at_def u16_at_def
        Let_def bindE_def split: if_splits)

subsection \<open>Colour and alpha of the composite\<close>

text \<open>
  C2 (as amended). For every entry that is not PNG and decodes, the composite has the
  bounds of the XOR image, and at every point of them the AND mask holds palette
  index 0 or 1. A pixel with index 1 is \<open>RGBA 0 0 0 0\<close>: alpha 0. A pixel with
  index 0 holds the XOR colour in alpha-premultiplied form (\<open>premul8\<close>): the XOR
  colour itself, with alpha 255, when the XOR pixel is opaque, as every XOR pixel
  is for the bit depths other than 32.
\<close>

theorem decodeBMP_pixels:
  assumes "decodeBMP v data = Inr img"
  shows "\<exists>ih xorS andS xorImg andImg.
     ReadInfoHeader data = Inr (ih, drop 40 data) \<and> newBMPReader v data = Inr (xorS, andS)
     \<and> bmp_Decode xorS = Inr xorImg \<and> bmp_Decode andS = Inr andImg
     \<and> Bounds (buf img) = Bounds (buf xorImg) \<and> Bounds (buf andImg) = Bounds (buf xorImg)
     \<and> (\<forall>x y. inRect x y (Bounds (buf xorImg)) \<longrightarrow>
           (\<exists>i sc. getI (Pix (buf andImg)) (PixOffset (buf andImg) 1 x y) = Inr i
              \<and> At xorImg x y = Inr sc
              \<and> (i = 1 \<and> At img x y = Inr (ColorRGBA (RGBA 0 0 0 0))
                 \<or> i = 0 \<and> At img x y = Inr (ColorRGBA (premul8 sc))
                    \<and> (alphaOf sc = 0xff \<longrightarrow>
                          premul8 sc = storedRGBA sc \<and> cA (premul8 sc) = 0xff))
              \<and> (ih_BitCount ih \<noteq> 32 \<longrightarrow> alphaOf sc = 0xff)))"
proof -
  from assms obtain ih xorS andS xorImg andImg where
    h: "ReadInfoHeader data = Inr (ih, drop 40 data)" "newBMPReader v data = Inr (xorS, andS)"
      "bmp_Decode xorS = Inr xorImg" "bmp_Decode andS = Inr andImg"
      "Bounds (buf img) = Bounds (buf xorImg)" "Bounds (buf andImg) = Bounds (buf xorImg)"
    and px: "\<And>x y. inRect x y (Bounds (buf xorImg)) \<Longrightarrow>
       \<exists>i sc. getI (Pix (buf andImg)) (PixOffset (buf andImg) 1 x y) = Inr i
          \<and> (i = 0 \<or> i = 1) \<and> At xorImg x y = Inr sc
          \<and> At img x y = Inr (ColorRGBA (if i = 1 then RGBA 0 0 0 0 else premul8 sc))
          \<and> (ih_BitCount ih \<noteq> 32 \<longrightarrow> alphaOf sc = 0xff)"
    by (rule decodeBMP_composite) blast
  have "\<forall>x y. inRect x y (Bounds (buf xorImg)) \<longrightarrow>
           (\<exists>i sc. getI (Pix (buf andImg)) (PixOffset (buf andImg) 1 x y) = Inr i
              \<and> At xorImg x y = Inr sc
              \<and> (i = 1 \<and> At img x y = Inr (ColorRGBA (RGBA 0 0 0 0))
                 \<or> i = 0 \<and> At img x y = Inr (ColorRGBA (premul8 sc))
                    \<and> (alphaOf sc = 0xff \<longrightarrow>
                          premul8 sc = storedRGBA sc \<and> cA (premul8 sc) = 0xff))
              \<and> (ih_BitCount ih \<noteq> 32 \<longrightarrow> alphaOf sc = 0xff))"
  proof (intro allI impI)
    fix x y
    assume "inRect x y (Bounds (buf xorImg))"
    from px [OF this] obtain i sc where
      a: "getI (Pix (buf andImg)) (PixOffset (buf andImg) 1 x y) = Inr i"
        "i = 0 \<or> i = 1" "At xorImg x y = Inr sc"
        "At img x y = Inr (ColorRGBA (if i = 1 then RGBA 0 0 0 0 else premul8 sc))"
        "ih_BitCount ih \<noteq> 32 \<longrightarrow> alphaOf sc = 0xff"
      by (elim exE conjE)
    have o: "alphaOf sc = 0xff \<longrightarrow> premul8 sc = storedRGBA sc \<and> cA (premul8 sc) = 0xff"
    proof
      assume o: "alphaOf sc = 0xff"
      from premul8_opaque [OF o] alpha_premul8 [of sc] o
      show "premul8 sc = storedRGBA sc \<and> cA (premul8 sc) = 0xff" by simp
    qed
    have c: "i = 1 \<and> At img x y = Inr (ColorRGBA (RGBA 0 0 0 0))
                 \<or> i = 0 \<and> At img x y = Inr (ColorRGBA (premul8 sc))
                    \<and> (alphaOf sc = 0xff \<longrightarrow>
                          premul8 sc = storedRGBA sc \<and> cA (premul8 sc) = 0xff)"
    proof (cases "i = 1")
      case True
      with a(4) show ?thesis by simp
    next
      case False
      with a(2) have i0: "i = 0" by simp
      with a(4) have "At img x y = Inr (ColorRGBA (premul8 sc))" by simp
      with i0 o show ?thesis by blast
    qed
    from a(1) a(3) c a(5)
    show "\<exists>i sc. getI (Pix (buf andImg)) (PixOffset (buf andImg) 1 x y) = Inr i
              \<and> At xorImg x y = Inr sc
              \<and> (i = 1 \<and> At img x y = Inr (ColorRGBA (RGBA 0 0 0 0))
                 \<or> i = 0 \<and> At img x y = Inr (ColorRGBA (premul8 sc))
                    \<and> (alphaOf sc = 0xff \<longrightarrow>
                          premul8 sc = storedRGBA sc \<and> cA (premul8 sc) = 0xff))
              \<and> (ih_BitCount ih \<noteq> 32 \<longrightarrow> alphaOf sc = 0xff)"
      by (intro exI [of _ i] exI [of _ sc] conjI)
  qed
  with h show ?thesis
    by (intro exI [of _ ih] exI [of _ xorS] exI [of _ andS] exI [of _ xorImg]
          exI [of _ andImg] conjI)
qed

text \<open>
  The entry of 8 by 1 pixels of 24 bits: pixel 0 has mask index 1 and is
  transparent, pixel 1 has mask index 0 and keeps the XOR colour with alpha 255.
\<close>

theorem decodeBMP_pixels_example:
  "decodeBMP ex_dir24 ex_payload24 = Inr ex_composite24
   \<and> bmp_Decode ex_xor_stream24 = Inr ex_xorImg24
   \<and> bmp_Decode ex_and_stream24 = Inr ex_andImg24
   \<and> getI (Pix (buf ex_andImg24)) (PixOffset (buf ex_andImg24) 1 0 0) = Inr 1
   \<and> At ex_composite24 0 0 = Inr (ColorRGBA (RGBA 0 0 0 0))
   \<and> getI (Pix (buf ex_andImg24)) (PixOffset (buf ex_andImg24) 1 1 0) = Inr 0
   \<and> At ex_xorImg24 1 0 = Inr (ColorRGBA (RGBA 6 5 4 255))
   \<and> At ex_composite24 1 0 = Inr (ColorRGBA (RGBA 6 5 4 255))"
proof -
  from decodeBMP_pixels [OF ex_decodeBMP24] obtain ih xorS andS xorImg andImg where
    ri: "ReadInfoHeader ex_payload24 = Inr (ih, drop 40 ex_payload24)"
    and nr: "newBMPReader ex_dir24 ex_payload24 = Inr (xorS, andS)"
    and dx: "bmp_Decode xorS = Inr xorImg" and da: "bmp_Decode andS = Inr andImg"
    and px: "\<forall>x y. inRect x y (Bounds (buf xorImg)) \<longrightarrow>
           (\<exists>i sc. getI (Pix (buf andImg)) (PixOffset (buf andImg) 1 x y) = Inr i
              \<and> At xorImg x y = Inr sc
              \<and> (i = 1 \<and> At ex_composite24 x y = Inr (ColorRGBA (RGBA 0 0 0 0))
                 \<or> i = 0 \<and> At ex_composite24 x y = Inr (ColorRGBA (premul8 sc))
                    \<and> (alphaOf sc = 0xff \<longrightarrow>
                          premul8 sc = storedRGBA sc \<and> cA (premul8 sc) = 0xff))
              \<and> (ih_BitCount ih \<noteq> 32 \<longrightarrow> alphaOf sc = 0xff))"
    by (elim exE conjE) (rule that)
  from nr have s: "xorS = ex_xor_stream24" "andS = ex_and_stream24"
    by (simp_all add: ex_streams24)
  from dx da have i: "xorImg = ex_xorImg24" "andImg = ex_andImg24"
    by (simp_all add: s ex_xor_decoded24 ex_and_decoded24)
  from px ex24_pixels(1) obtain k where
    "getI (Pix (buf ex_andImg24)) (PixOffset (buf ex_andImg24) 1 0 0) = Inr k"
    "k = 1 \<and> At ex_composite24 0 0 = Inr (ColorRGBA (RGBA 0 0 0 0)) \<or> k = 0"
    unfolding i by blast
  with ex24_pixels(3) have p0: "At ex_composite24 0 0 = Inr (ColorRGBA (RGBA 0 0 0 0))"
    by simp
  from px ex24_pixels(2) obtain k sc where
    a: "getI (Pix (buf ex_andImg24)) (PixOffset (buf ex_andImg24) 1 1 0) = Inr k"
      "At ex_xorImg24 1 0 = Inr sc"
      "k = 1 \<or> At ex_composite24 1 0 = Inr (ColorRGBA (premul8 sc))
          \<and> (alphaOf sc = 0xff \<longrightarrow> premul8 sc = storedRGBA sc)"
    unfolding i by blast
  from a(1) ex24_pixels(4) have k: "k = 0" by simp
  from a(2) ex24_pixels(5) have sc: "sc = ColorRGBA (RGBA 6 5 4 255)" by simp
  from a(3) have p1: "At ex_composite24 1 0 = Inr (ColorRGBA (RGBA 6 5 4 255))"
    by (simp add: k sc)
  show ?thesis
    using ex_decodeBMP24 ex_xor_decoded24 ex_and_decoded24 ex24_pixels(3,4,5) p0 p1
    by (intro conjI)
qed

text \<open>
  The claim as stated fails for 32 bits per pixel: the pixel of \<open>ex_icon\<close> has mask
  index 0 and the XOR colour (30, 20, 10) with the stored alpha 128; the composite
  pixel is (15, 10, 5) with alpha 128, neither the XOR colour nor alpha 255.
\<close>

theorem Decode_semitransparent_counterexample:
  "Decode ex_png [] ex_icon = Inr [ex_composite]
   \<and> newBMPReader ex_dir ex_payload = Inr (ex_xor_stream, ex_and_stream)
   \<and> bmp_Decode ex_xor_stream = Inr ex_xorImg
   \<and> bmp_Decode ex_and_stream = Inr ex_andImg
   \<and> getI (Pix (buf ex_andImg)) (PixOffset (buf ex_andImg) 1 0 0) = Inr 0
   \<and> At ex_xorImg 0 0 = Inr (ColorNRGBA 30 20 10 128)
   \<and> At ex_composite 0 0 = Inr (ColorRGBA (RGBA 15 10 5 128))"
proof -
  have "getI (Pix (buf ex_andImg)) (PixOffset (buf ex_andImg) 1 0 0) = Inr 0"
    "At ex_xorImg 0 0 = Inr (ColorNRGBA 30 20 10 128)"
    "At ex_composite 0 0 = Inr (ColorRGBA (RGBA 15 10 5 128))"
    by (simp_all add: ex_xorImg_def ex_andImg_def ex_composite_def inRect_def getI_def
          PixOffset_def get4_def bindE_def)
  with ex_icon_decoded ex_streams ex_xor_decoded ex_and_decoded show ?thesis
    by (intro conjI)
qed

text \<open>
  C7 (as amended). For every entry that is not PNG and decodes, the alpha of every
  composite pixel is 0 or the alpha of the XOR pixel at the same point. For the bit
  depths other than 32 every XOR pixel is fully opaque, and every composite alpha is
  0 or 255.
\<close>

theorem decodeBMP_alpha:
  assumes "decodeBMP v data = Inr img"
  shows "\<exists>ih xorS andS xorImg andImg.
     ReadInfoHeader data = Inr (ih, drop 40 data) \<and> newBMPReader v data = Inr (xorS, andS)
     \<and> bmp_Decode xorS = Inr xorImg \<and> bmp_Decode andS = Inr andImg
     \<and> Bounds (buf img) = Bounds (buf xorImg)
     \<and> (\<forall>x y. inRect x y (Bounds (buf xorImg)) \<longrightarrow>
           (\<exists>sc c. At xorImg x y = Inr sc \<and> At img x y = Inr (ColorRGBA c)
              \<and> (cA c = 0 \<or> cA c = alphaOf sc)
              \<and> (ih_BitCount ih \<noteq> 32 \<longrightarrow>
                    alphaOf sc = 0xff \<and> (cA c = 0 \<or> cA c = 0xff))))"
proof -
  from assms obtain ih xorS andS xorImg andImg where
    h: "ReadInfoHeader data = Inr (ih, drop 40 data)" "newBMPReader v data = Inr (xorS, andS)"
      "bmp_Decode xorS = Inr xorImg" "bmp_Decode andS = Inr andImg"
      "Bounds (buf img) = Bounds (buf xorImg)"
    and px: "\<And>x y. inRect x y (Bounds (buf xorImg)) \<Longrightarrow>
       \<exists>i sc. getI (Pix (buf andImg)) (PixOffset (buf andImg) 1 x y) = Inr i
          \<and> (i = 0 \<or> i = 1) \<and> At xorImg x y = Inr sc
          \<and> At img x y = Inr (ColorRGBA (if i = 1 then RGBA 0 0 0 0 else premul8 sc))
          \<and> (ih_BitCount ih \<noteq> 32 \<longrightarrow> alphaOf sc = 0xff)"
    by (rule decodeBMP_composite) blast
  have "\<forall>x y. inRect x y (Bounds (buf xorImg)) \<longrightarrow>
           (\<exists>sc c. At xorImg x y = Inr sc \<and> At img x y = Inr (ColorRGBA c)
              \<and> (cA c = 0 \<or> cA c = alphaOf sc)
              \<and> (ih_BitCount ih \<noteq> 32 \<longrightarrow>
                    alphaOf sc = 0xff \<and> (cA c = 0 \<or> cA c = 0xff)))"
  proof (intro allI impI)
    fix x y
    assume "inRect x y (Bounds (buf xorImg))"
    from px [OF this] obtain i :: byte and sc where
      a: "At xorImg x y = Inr sc"
        "At img x y = Inr (ColorRGBA (if i = 1 then RGBA 0 0 0 0 else premul8 sc))"
        "ih_BitCount ih \<noteq> 32 \<longrightarrow> alphaOf sc = 0xff"
      by blast
    define c where "c = (if i = 1 then RGBA 0 0 0 0 else premul8 sc)"
    have c1: "cA c = 0 \<or> cA c = alphaOf sc"
      by (simp add: c_def alpha_premul8)
    have c2: "At img x y = Inr (ColorRGBA c)" using a(2) by (simp add: c_def)
    have c3: "ih_BitCount ih \<noteq> 32 \<longrightarrow> alphaOf sc = 0xff \<and> (cA c = 0 \<or> cA c = 0xff)"
      using a(3) c1 by auto
    from a(1) c2 c1 c3
    show "\<exists>sc c. At xorImg x y = Inr sc \<and> At img x y = Inr (ColorRGBA c)
              \<and> (cA c = 0 \<or> cA c = alphaOf sc)
              \<and> (ih_BitCount ih \<noteq> 32 \<longrightarrow>
                    alphaOf sc = 0xff \<and> (cA c = 0 \<or> cA c = 0xff))"
      by (intro exI [of _ sc] exI [of _ c] conjI)
  qed
  with h show ?thesis
    by (intro exI [of _ ih] exI [of _ xorS] exI [of _ andS] exI [of _ xorImg]
          exI [of _ andImg] conjI)
qed

text \<open>
  The entry of 24 bits: the XOR pixel at (1, 0) is opaque and the composite alpha
  there is 0 or 255.
\<close>

theorem decodeBMP_alpha_example:
  "decodeBMP ex_dir24 ex_payload24 = Inr ex_composite24
   \<and> (\<exists>ih sc c. ReadInfoHeader ex_payload24 = Inr (ih, drop 40 ex_payload24)
         \<and> ih_BitCount ih = 24
         \<and> At ex_xorImg24 1 0 = Inr sc \<and> alphaOf sc = 0xff
         \<and> At ex_composite24 1 0 = Inr (ColorRGBA c) \<and> (cA c = 0 \<or> cA c = 0xff))"
proof -
  from decodeBMP_alpha [OF ex_decodeBMP24] obtain ih xorS andS xorImg andImg where
    ri: "ReadInfoHeader ex_payload24 = Inr (ih, drop 40 ex_payload24)"
    and nr: "newBMPReader ex_dir24 ex_payload24 = Inr (xorS, andS)"
    and dx: "bmp_Decode xorS = Inr xorImg"
    and px: "\<forall>x y. inRect x y (Bounds (buf xorImg)) \<longrightarrow>
           (\<exists>sc c. At xorImg x y = Inr sc \<and> At ex_composite24 x y = Inr (ColorRGBA c)
              \<and> (cA c = 0 \<or> cA c = alphaOf sc)
              \<and> (ih_BitCount ih \<noteq> 32 \<longrightarrow>
                    alphaOf sc = 0xff \<and> (cA c = 0 \<or> cA c = 0xff)))"
    by (elim exE conjE) (rule that)
  from nr have s: "xorS = ex_xor_stream24" by (simp add: ex_streams24)
  from dx have i: "xorImg = ex_xorImg24" by (simp add: s ex_xor_decoded24)
  have b: "ih_BitCount ih = 24" by (rule ex24_header [OF ri])
  from px ex24_pixels(2) obtain sc c where
    a: "At ex_xorImg24 1 0 = Inr sc" "At ex_composite24 1 0 = Inr (ColorRGBA c)"
      "ih_BitCount ih \<noteq> 32 \<longrightarrow> alphaOf sc = 0xff \<and> (cA c = 0 \<or> cA c = 0xff)"
    unfolding i by blast
  from a(3) b have "alphaOf sc = 0xff" "cA c = 0 \<or> cA c = 0xff" by simp_all
  with ri b a(1,2) ex_decodeBMP24 show ?thesis by blast
qed

text \<open>
  The claim as stated fails for 32 bits per pixel: the XOR pixel of \<open>ex_payload\<close>
  has the stored alpha 128, and so has the composite pixel.
\<close>

theorem decodeBMP_alpha_counterexample:
  "decodeBMP ex_dir ex_payload = Inr ex_composite
   \<and> newBMPReader ex_dir ex_payload = Inr (ex_xor_stream, ex_and_stream)
   \<and> bmp_Decode ex_xor_stream = Inr ex_xorImg
   \<and> At ex_xorImg 0 0 = Inr (ColorNRGBA 30 20 10 128)
   \<and> alphaOf (ColorNRGBA 30 20 10 128) \<noteq> 0xff
   \<and> At ex_composite 0 0 = Inr (ColorRGBA (RGBA 15 10 5 128))
   \<and> cA (RGBA 15 10 5 128) \<noteq> 0 \<and> cA (RGBA 15 10 5 128) \<noteq> 0xff"
proof -
  have "At ex_xorImg 0 0 = Inr (ColorNRGBA 30 20 10 128)"
    "At ex_composite 0 0 = Inr (ColorRGBA (RGBA 15 10 5 128))"
    "alphaOf (ColorNRGBA 30 20 10 128) \<noteq> 0xff"
    "cA (RGBA 15 10 5 128) \<noteq> 0" "cA (RGBA 15 10 5 128) \<noteq> 0xff"
    by (simp_all add: ex_xorImg_def ex_composite_def inRect_def PixOffset_def get4_def
          bindE_def)
  with ex_decodeBMP ex_streams ex_xor_decoded show ?thesis
    by (intro conjI)
qed

section \<open>The payload range of an entry\<close>

subsection \<open>The spare capacity of the working buffer\<close>

lemma readHeader_append:
  assumes "readHeader r = Inr (h, r1)"
  shows "6 \<le> length r" and "r1 = drop 6 r" and "readHeader (r @ s) = Inr (h, r1 @ s)"
proof -
  show l: "6 \<le> length r"
  proof (rule ccontr)
    assume "\<not> 6 \<le> length r"
    then have "header_read r = \<lparr>hdr_Reserved = 0, hdr_ImageType = 0, hdr_Count = 0\<rparr>"
      by (simp add: header_read_def ReadFull_def)
    with assms show False by (simp add: readHeader_def Let_def)
  qed
  from assms show r1: "r1 = drop 6 r"
    by (simp add: readHeader_def Let_def after_read_def split: if_splits)
  from l have "header_read (r @ s) = header_read r"
    by (simp add: header_read_def ReadFull_def)
  with assms l show "readHeader (r @ s) = Inr (h, r1 @ s)"
    by (simp add: readHeader_def Let_def after_read_def split: if_splits)
qed

lemma readDirectoris_length:
  "readDirectoris r sz = Inr (ds, bufr) \<Longrightarrow> length ds = nat sz"
  by (auto simp: readDirectoris_def Let_def ReadFull_def split: if_splits)

lemma readDirectoris_append:
  assumes "readDirectoris r sz = Inr (ds, bufr)" and "16 * nat sz \<le> length r"
  shows "readDirectoris (r @ s) sz = Inr (ds, bufr @ s)"
  using assms
  by (auto simp: readDirectoris_def Let_def ReadFull_def after_read_def split: if_splits)

lemma readDirectoris_short:
  assumes "readDirectoris r sz = Inr (ds, bufr)" and "\<not> 16 * nat sz \<le> length r"
  shows "ds = replicate (nat sz) zero_directory"
  using assms
  by (auto simp: readDirectoris_def Let_def ReadFull_def split: if_splits)

lemma payloadRange_zero_directory:
  assumes "n < 2 ^ 16" and "payloadRange zero_directory n = (lo, hi)"
  shows "lo < 0"
proof -
  define x where "x = - int (6 + 16 * n)"
  have r: "- (2 ^ 31) \<le> x" "x < 2 ^ 31" "x < 0"
    using assms(1) by (simp_all add: x_def)
  have "signed_take_bit 31 x = x"
    using r by (intro signed_take_bit_int_eq_self) simp_all
  then have s: "sint (word_of_int x :: 32 word) = x"
    by (simp add: sint_sbintrunc')
  from assms(2) have "lo = sint ((0 :: 32 word) - word_of_nat (6 + 16 * n))"
    by (simp add: payloadRange_def zero_directory_def Let_def)
  also have "(0 :: 32 word) - word_of_nat (6 + 16 * n) = word_of_int x"
    by (simp add: x_def)
  finally show ?thesis
    using s r(3) by simp
qed

lemma decodeEntry_backing:
  "decodeEntry png bufr spare n = decodeEntry png (bufr @ spare) [] n"
  by (rule ext) (simp add: decodeEntry_def)

lemma Decode_spare_capacity:
  assumes "readHeader r = Inr (h, r1)" and "16 * nat (sint (hdr_Count h)) \<le> length r1"
  shows "Decode png spare r = Decode png [] (r @ spare)"
proof -
  obtain ds bufr where d: "readDirectoris r1 (sint (hdr_Count h)) = Inr (ds, bufr)"
    using assms(1)
    by (auto simp: readDirectoris_def readHeader_def Let_def split: if_splits)
  from readDirectoris_append [OF d assms(2)]
  have d': "readDirectoris (r1 @ spare) (sint (hdr_Count h)) = Inr (ds, bufr @ spare)" .
  from readHeader_append(3) [OF assms(1)]
  have h': "readHeader (r @ spare) = Inr (h, r1 @ spare)" .
  show ?thesis
    by (simp add: Decode_def assms(1) h' d d' bindE_def decodeEntry_backing [of png bufr spare])
qed

lemma entry_data:
  assumes "0 \<le> lo" and "lo \<le> hi" and "int (length bufr) < hi"
  shows "take (nat (hi - lo)) (drop (nat lo) (bufr @ spare))
     = drop (nat lo) bufr
         @ take (nat hi - max (nat lo) (length bufr)) (drop (nat lo - length bufr) spare)"
proof -
  have a: "nat (hi - lo) = nat hi - nat lo" using assms by simp
  have b: "length bufr - nat lo \<le> nat hi - nat lo" using assms by simp
  have c: "nat hi - (nat lo + (length bufr - nat lo)) = nat hi - max (nat lo) (length bufr)"
    using assms by (simp add: max_def)
  show ?thesis
    by (simp add: a b c)
qed

text \<open>
  C4 (as amended). Let the range \<open>offset\<close> to \<open>offset+size\<close> of a directory entry
  exceed the working buffer's length (negative offset, end before the offset, or
  end beyond the length), the entries before it being decoded. \<open>Decode\<close> makes no
  check against the length. When the range does not lie within the capacity of the
  buffer's backing array, \<open>Decode\<close> stops with Go's slice-bounds panic at
  \<open>buf[offset : offset+size]\<close>. When it does, the slice expression succeeds: the
  entry is decoded from the buffer's bytes from the offset on, followed by bytes of
  the backing array beyond the buffer's length, and \<open>Decode\<close> returns what it
  returns for the container with the spare bytes appended.
\<close>

theorem Decode_range_beyond_length:
  assumes "readHeader r = Inr (h, r1)"
    and "readDirectoris r1 (sint (hdr_Count h)) = Inr (ds, bufr)"
    and "i < length ds"
    and "\<forall>j<i. \<exists>img. decodeEntry png bufr spare (length ds) (ds ! j) = Inr img"
    and "payloadRange (ds ! i) (length ds) = (lo, hi)"
    and "lo < 0 \<or> hi < lo \<or> int (length bufr) < hi"
  shows "if 0 \<le> lo \<and> lo \<le> hi \<and> hi \<le> int (length bufr + length spare)
         then Decode png spare r = Decode png [] (r @ spare)
              \<and> decodeEntry png bufr spare (length ds) (ds ! i)
                   = (let data = drop (nat lo) bufr
                                   @ take (nat hi - max (nat lo) (length bufr))
                                       (drop (nat lo - length bufr) spare)
                      in if length bufr + length spare < nat lo + 4
                         then Inl (Panic SliceBoundsOutOfRange)
                         else if take 3 (drop (nat lo + 1) (bufr @ spare)) = PNG then png data
                         else decodeBMP (ds ! i) data)
         else Decode png spare r = Inl (Panic SliceBoundsOutOfRange)"
proof (cases "0 \<le> lo \<and> lo \<le> hi \<and> hi \<le> int (length bufr + length spare)")
  case False
  then have "lo < 0 \<or> hi < lo \<or> int (length bufr + length spare) < hi" by auto
  from Decode_out_of_capacity [OF assms(1-5) this]
  show ?thesis unfolding if_not_P [OF False] .
next
  case True
  then have lo: "0 \<le> lo" "lo \<le> hi" and hi: "hi \<le> int (length bufr + length spare)"
    by simp_all
  from assms(6) lo have beyond: "int (length bufr) < hi" by simp
  let ?n = "nat (sint (hdr_Count h))"
  have n: "length ds = ?n" by (rule readDirectoris_length [OF assms(2)])
  have "sint (hdr_Count h) < 2 ^ 15" using sint_lt [of "hdr_Count h"] by simp
  then have small: "length ds < 2 ^ 16" unfolding n by simp
  have full: "16 * ?n \<le> length r1"
  proof (rule ccontr)
    assume "\<not> 16 * ?n \<le> length r1"
    from readDirectoris_short [OF assms(2) this] assms(3)
    have "ds ! i = zero_directory" by simp
    with assms(5) have "payloadRange zero_directory (length ds) = (lo, hi)" by simp
    from payloadRange_zero_directory [OF small this] lo(1) show False by simp
  qed
  have a: "Decode png spare r = Decode png [] (r @ spare)"
    by (rule Decode_spare_capacity [OF assms(1) full])
  have b: "length (drop (nat lo) (bufr @ spare)) < 4
      \<longleftrightarrow> length bufr + length spare < nat lo + 4"
    by auto
  have c: "drop 1 (drop (nat lo) (bufr @ spare)) = drop (nat lo + 1) (bufr @ spare)"
    by (simp del: drop_append)
  have e: "decodeEntry png bufr spare (length ds) (ds ! i)
      = (let data = drop (nat lo) bufr
                      @ take (nat hi - max (nat lo) (length bufr))
                          (drop (nat lo - length bufr) spare)
         in if length bufr + length spare < nat lo + 4
            then Inl (Panic SliceBoundsOutOfRange)
            else if take 3 (drop (nat lo + 1) (bufr @ spare)) = PNG then png data
            else decodeBMP (ds ! i) data)"
  proof -
    have g: "\<not> \<not> (0 \<le> lo \<and> lo \<le> hi \<and> hi \<le> int (length (bufr @ spare)))"
      using True by simp
    show ?thesis
      unfolding decodeEntry_def assms(5) Let_def prod.case
      by (simp only: entry_data [OF lo beyond] b c if_not_P [OF g])
  qed
  from a e True show ?thesis by simp
qed

subsection \<open>A payload that lacks its last byte, and an offset of 0\<close>

text \<open>
  Whatever the spare capacity holds, when there is any, the payload of
  \<open>ex_truncated\<close> decodes: its missing last byte is padding of the AND mask's row,
  which \<open>decode1\<close> reads and does not use at width 1.
\<close>

lemma ex_truncated_streams:
  "newBMPReader ex_dir (take 47 ex_payload @ [b])
     = Inr (ex_xor_stream, butlast ex_and_stream @ [b])"
  by (simp add: newBMPReader_def ReadInfoHeader_def ReadFull_def ex_dir_def ex_payload_def
        u32_at_def u16_at_def Let_def xorSize_def psize_def rowBytes_def rowCount_def
        xorStream_def andStream_def BM_def put32_def put16_def halfHeight_def
        bmpHeaderSize_def bmpInfoHeaderSize_def signed_divide_int_def
        ex_xor_stream_def ex_and_stream_def)

lemma ex_truncated_and_decoded: "bmp_Decode (butlast ex_and_stream @ [b]) = Inr ex_andImg"
  by (simp add: ex_and_stream_def ex_eval decodeRows.simps upt_rec ex_andImg_def)

lemma ex_truncated_decodeBMP:
  "decodeBMP ex_dir (take 47 ex_payload @ [b]) = Inr ex_composite"
  by (simp add: decodeBMP_def ex_truncated_streams ex_xor_decoded ex_truncated_and_decoded
        ex_composite_eq bindE_def)

lemma ex_truncated_any_spare: "Decode ex_png (b # rest) ex_truncated = Inr [ex_composite]"
proof -
  from ex_truncated_parse obtain h where
    h: "readHeader ex_truncated = Inr (h, drop 6 ex_truncated)"
    and c: "sint (hdr_Count h) = 1"
    by blast
  have d: "readDirectoris (drop 6 ex_truncated) (sint (hdr_Count h))
      = Inr ([ex_dir], take 47 ex_payload)"
    using ex_truncated_dir c by simp
  define t where "t = take 47 ex_payload"
  have l: "length t = 47"
    by (simp add: t_def ex_payload_def)
  have m: "take 3 (drop (Suc 0) t) \<noteq> PNG"
    by (simp add: t_def ex_payload_def PNG_def)
  have "decodeEntry ex_png t (b # rest) 1 ex_dir = decodeBMP ex_dir (t @ [b])"
    using ex_truncated_range m by (simp add: decodeEntry_def Let_def l)
  then have e: "decodeEntry ex_png (take 47 ex_payload) (b # rest) 1 ex_dir = Inr ex_composite"
    by (simp add: t_def ex_truncated_decodeBMP)
  show ?thesis
    using e by (simp add: Decode_def h d bindE_def)
qed

lemma ex_offset0_dir:
  "readHeader ex_offset0
     = Inr (\<lparr>hdr_Reserved = 0, hdr_ImageType = 1, hdr_Count = 1\<rparr>, drop 6 ex_offset0)"
  "readDirectoris (drop 6 ex_offset0) 1 = Inr ([ex_dir0], ex_payload)"
  "payloadRange ex_dir0 1 = (- 22, 26)"
  by (simp_all add: ex_offset0_def ex_dir0_def ex_dir_def ex_payload_def
        readHeader_def header_read_def readDirectoris_def directory_at_def after_read_def
        ReadFull_def u16_at_def u32_at_def Let_def payloadRange_def)

lemma ex_offset0_any_spare:
  "Decode ex_png spare ex_offset0 = Inl (Panic SliceBoundsOutOfRange)"
proof -
  have "decodeEntry ex_png ex_payload spare 1 ex_dir0 = Inl (Panic SliceBoundsOutOfRange)"
    by (rule decodeEntry_out_of_range [OF ex_offset0_dir(3)]) simp
  then show ?thesis
    by (simp add: Decode_def ex_offset0_dir bindE_def)
qed

lemma ex_spare_47: "length (ex_spare 47) = 465" "ex_spare 47 = 0 # replicate 464 0"
proof -
  show "length (ex_spare 47) = 465" by (simp add: ex_spare_def)
  have "replicate (Suc 464) (0 :: byte) = 0 # replicate 464 0" by (rule replicate_Suc)
  then show "ex_spare 47 = 0 # replicate 464 0" by (simp add: ex_spare_def)
qed

text \<open>
  The container whose payload lacks its last byte, in a buffer of length 47 and
  capacity 512, decodes as the container extended by the spare bytes does: to the
  image. The container with offset 0 panics.
\<close>

theorem Decode_range_beyond_length_examples:
  "Decode ex_png (ex_spare 47) ex_truncated = Decode ex_png [] (ex_truncated @ ex_spare 47)
   \<and> Decode ex_png (ex_spare 47) ex_truncated = Inr [ex_composite]
   \<and> Decode ex_png (ex_spare 48) ex_offset0 = Inl (Panic SliceBoundsOutOfRange)"
proof -
  from ex_truncated_parse obtain h where
    h: "readHeader ex_truncated = Inr (h, drop 6 ex_truncated)"
    and c: "sint (hdr_Count h) = 1"
    by blast
  have d: "readDirectoris (drop 6 ex_truncated) (sint (hdr_Count h))
      = Inr ([ex_dir], take 47 ex_payload)"
    using ex_truncated_dir c by simp
  have i: "0 < length [ex_dir]" by simp
  have p: "\<forall>j<0. \<exists>img. decodeEntry ex_png (take 47 ex_payload) (ex_spare 47)
      (length [ex_dir]) ([ex_dir] ! j) = Inr img"
    by simp
  have r: "payloadRange ([ex_dir] ! 0) (length [ex_dir]) = (0, 48)"
    using ex_truncated_range by simp
  have l: "(0 :: int) < 0 \<or> (48 :: int) < 0 \<or> int (length (take 47 ex_payload)) < 48"
    by (simp add: ex_payload_def)
  have cap: "(0 :: int) \<le> 0 \<and> (0 :: int) \<le> 48
      \<and> 48 \<le> int (length (take 47 ex_payload) + length (ex_spare 47))"
    by (simp add: ex_payload_def ex_spare_47(1))
  have a: "Decode ex_png (ex_spare 47) ex_truncated
      = Decode ex_png [] (ex_truncated @ ex_spare 47)"
    using Decode_range_beyond_length [OF h d i p r l] unfolding if_P [OF cap]
    by (rule conjunct1)
  have b: "Decode ex_png (ex_spare 47) ex_truncated = Inr [ex_composite]"
    unfolding ex_spare_47(2) by (rule ex_truncated_any_spare)
  have d0: "readDirectoris (drop 6 ex_offset0)
      (sint (hdr_Count \<lparr>hdr_Reserved = 0, hdr_ImageType = 1, hdr_Count = 1\<rparr>))
      = Inr ([ex_dir0], ex_payload)"
    using ex_offset0_dir(2) by simp
  have i0: "0 < length [ex_dir0]" by simp
  have p0: "\<forall>j<0. \<exists>img. decodeEntry ex_png ex_payload (ex_spare 48)
      (length [ex_dir0]) ([ex_dir0] ! j) = Inr img"
    by simp
  have r0: "payloadRange ([ex_dir0] ! 0) (length [ex_dir0]) = (- 22, 26)"
    using ex_offset0_dir(3) by simp
  have l0: "(- 22 :: int) < 0 \<or> (26 :: int) < - 22 \<or> int (length ex_payload) < 26"
    by simp
  have ncap: "\<not> ((0 :: int) \<le> - 22 \<and> (- 22 :: int) \<le> 26
      \<and> 26 \<le> int (length ex_payload + length (ex_spare 48)))"
    by simp
  have e: "Decode ex_png (ex_spare 48) ex_offset0 = Inl (Panic SliceBoundsOutOfRange)"
    using Decode_range_beyond_length [OF ex_offset0_dir(1) d0 i0 p0 r0 l0]
    unfolding if_not_P [OF ncap] .
  from a b e show ?thesis by (intro conjI)
qed


text \<open>
  The claim as stated fails: the payload of \<open>ex_truncated\<close> is declared with 48
  bytes at offset 22 and the buffer after the directory holds 47, with 465 spare
  bytes; \<open>Decode\<close> reads one byte beyond the buffer's length and returns the image.
  For the payload range of \<open>ex_offset0\<close>, from -22 to 26, \<open>Decode\<close> panics; a panic
  is no \<open>TruncatedData\<close> error.
\<close>

theorem Decode_truncated_counterexample:
  "payloadRange ex_dir 1 = (0, 48) \<and> length (drop 22 ex_truncated) = 47
   \<and> length (ex_spare 47) = 465
   \<and> Decode ex_png (ex_spare 47) ex_truncated = Inr [ex_composite]
   \<and> payloadRange ex_dir0 1 = (- 22, 26)
   \<and> Decode ex_png (ex_spare 48) ex_offset0 = Inl (Panic SliceBoundsOutOfRange)
   \<and> \<not> TruncatedData (Panic SliceBoundsOutOfRange)"
proof -
  have "length (drop 22 ex_truncated) = 47"
    by (simp add: ex_truncated_def ex_container_header_def ex_payload_def)
  moreover have "Decode ex_png (ex_spare 47) ex_truncated = Inr [ex_composite]"
    unfolding ex_spare_47(2) by (rule ex_truncated_any_spare)
  moreover have "\<not> TruncatedData (Panic SliceBoundsOutOfRange)" by simp
  ultimately show ?thesis
    using ex_truncated_range ex_spare_47(1) ex_offset0_dir(3) ex_offset0_any_spare [of "ex_spare 48"]
    by (intro conjI)
qed

end
